theory Spec2Isabelle
  imports Complex_Main
begin

section \<open>Strings\<close>

text \<open>
  A Python \<open>str\<close> is modelled as a \<open>string\<close>: a list of 8-bit characters, read as the
  code points 0 to 255. On this range \<open>str.isspace\<close> (which is also what the regular
  expression class \<open>\s\<close> matches) holds for exactly the twelve code points below,
  \<open>str.lower\<close> changes the letters A to Z and the accented capitals 192 to 222
  (but not the multiplication sign 215), and the word characters of \<open>\b\<close> are the
  alphanumeric code points and the underscore.
\<close>

definition py_isspace :: "char \<Rightarrow> bool" where
  "py_isspace c = (c \<in> set [CHR 0x09, CHR 0x0A, CHR 0x0B, CHR 0x0C, CHR 0x0D,
     CHR 0x1C, CHR 0x1D, CHR 0x1E, CHR 0x1F, CHR 0x20, CHR 0x85, CHR 0xA0])"

definition NL :: char where
  "NL = CHR 0x0A"

definition py_lower_char :: "char \<Rightarrow> char" where
  "py_lower_char c =
     (let n = (of_char c :: nat)
      in if (65 \<le> n \<and> n \<le> 90) \<or> (192 \<le> n \<and> n \<le> 222 \<and> n \<noteq> 215)
         then char_of (n + 32) else c)"

definition py_lower :: "string \<Rightarrow> string" where
  "py_lower s = map py_lower_char s"

definition is_word_char :: "char \<Rightarrow> bool" where
  "is_word_char c =
     (let n = (of_char c :: nat)
      in (48 \<le> n \<and> n \<le> 57) \<or> (65 \<le> n \<and> n \<le> 90) \<or> n = 95 \<or> (97 \<le> n \<and> n \<le> 122)
         \<or> n \<in> set [170, 178, 179, 181, 185, 186, 188, 189, 190]
         \<or> (192 \<le> n \<and> n \<le> 214) \<or> (216 \<le> n \<and> n \<le> 246) \<or> 248 \<le> n)"

definition is_ascii_upper :: "char \<Rightarrow> bool" where
  "is_ascii_upper c = (let n = (of_char c :: nat) in 65 \<le> n \<and> n \<le> 90)"

text \<open>\<open>s.lstrip()\<close>, \<open>s.rstrip()\<close>, \<open>s.strip()\<close> and \<open>s.rstrip(chars)\<close>,
  \<open>s.strip(chars)\<close>.\<close>

definition lstrip :: "string \<Rightarrow> string" where
  "lstrip s = dropWhile py_isspace s"

definition rstrip :: "string \<Rightarrow> string" where
  "rstrip s = rev (dropWhile py_isspace (rev s))"

definition strip :: "string \<Rightarrow> string" where
  "strip s = rstrip (lstrip s)"

definition rstrip_chars :: "string \<Rightarrow> string \<Rightarrow> string" where
  "rstrip_chars chars s = rev (dropWhile (\<lambda>c. c \<in> set chars) (rev s))"

definition strip_chars :: "string \<Rightarrow> string \<Rightarrow> string" where
  "strip_chars chars s = rstrip_chars chars (dropWhile (\<lambda>c. c \<in> set chars) s)"

text \<open>The test \<open>not s or not s.strip()\<close>.\<close>

definition is_blank :: "string \<Rightarrow> bool" where
  "is_blank s = (s = [] \<or> strip s = [])"

text \<open>\<open>s.startswith(p)\<close>, and the same comparison under \<open>re.IGNORECASE\<close>.\<close>

primrec starts_with :: "string \<Rightarrow> string \<Rightarrow> bool" where
  "starts_with [] s = True"
| "starts_with (p # ps) s = (case s of [] \<Rightarrow> False | c # cs \<Rightarrow> p = c \<and> starts_with ps cs)"

primrec ci_starts_with :: "string \<Rightarrow> string \<Rightarrow> bool" where
  "ci_starts_with [] s = True"
| "ci_starts_with (p # ps) s =
     (case s of [] \<Rightarrow> False
      | c # cs \<Rightarrow> py_lower_char p = py_lower_char c \<and> ci_starts_with ps cs)"

text \<open>\<open>sub in s\<close>.\<close>

fun contains :: "string \<Rightarrow> string \<Rightarrow> bool" where
  "contains sub [] = (sub = [])"
| "contains sub (c # cs) = (starts_with sub (c # cs) \<or> contains sub cs)"

text \<open>\<open>s.split(sep)\<close> for a one-character separator: empty pieces are kept.\<close>

fun split_on :: "char \<Rightarrow> string \<Rightarrow> string list" where
  "split_on sep [] = [[]]"
| "split_on sep (c # cs) =
     (case split_on sep cs of
        [] \<Rightarrow> [[c]]
      | p # ps \<Rightarrow> if c = sep then [] # p # ps else (c # p) # ps)"

text \<open>\<open>s.split()\<close>: split on runs of whitespace, no empty pieces.\<close>

function split_ws :: "string \<Rightarrow> string list" where
  "split_ws s =
     (case dropWhile py_isspace s of
        [] \<Rightarrow> []
      | c # cs \<Rightarrow> takeWhile (\<lambda>x. \<not> py_isspace x) (c # cs)
                 # split_ws (dropWhile (\<lambda>x. \<not> py_isspace x) cs))"
  by pat_completeness auto
termination
proof (relation "measure length")
  show "wf (measure length)" by simp
next
  fix s :: string and c cs
  assume h: "dropWhile py_isspace s = c # cs"
  have "length (dropWhile (\<lambda>x. \<not> py_isspace x) cs) \<le> length cs"
    by (rule length_dropWhile_le)
  moreover have "length (c # cs) \<le> length s"
    using h length_dropWhile_le [of py_isspace s] by simp
  ultimately show "(dropWhile (\<lambda>x. \<not> py_isspace x) cs, s) \<in> measure length"
    by simp
qed

text \<open>The prefix of \<open>s\<close> before the first position at which \<open>P\<close> holds of the rest:
  \<open>s.split(sep)[0]\<close> and \<open>re.split(pattern, s)[0]\<close> for a pattern that matches no
  empty string.\<close>

fun before_first :: "(string \<Rightarrow> bool) \<Rightarrow> string \<Rightarrow> string" where
  "before_first P [] = []"
| "before_first P (c # cs) = (if P (c # cs) then [] else c # before_first P cs)"


section \<open>SQL generator: cleaning and extraction\<close>

definition fence :: string where
  "fence = [CHR 0x60, CHR 0x60, CHR 0x60]"

text \<open>
  \<open>re.sub(r'```(?:sql)?', '', sql, flags=re.IGNORECASE)\<close>: scanning from the left, a
  fence marker is dropped together with a directly following \<open>sql\<close> (in any case); every
  other character is kept.
\<close>

fun remove_fences :: "string \<Rightarrow> string" where
  "remove_fences [] = []"
| "remove_fences (c # cs) =
     (if starts_with fence (c # cs)
      then (if ci_starts_with ''sql'' (drop 2 cs)
            then remove_fences (drop 5 cs)
            else remove_fences (drop 2 cs))
      else c # remove_fences cs)"

text \<open>
  \<open>re.sub(r'[ \t]+', ' ', sql)\<close>: every maximal run of spaces and tabs becomes one space.
\<close>

definition is_hspace :: "char \<Rightarrow> bool" where
  "is_hspace c = (c = CHR '' '' \<or> c = CHR 0x09)"

function collapse_hspace :: "string \<Rightarrow> string" where
  "collapse_hspace [] = []"
| "collapse_hspace (c # cs) =
     (if is_hspace c then CHR '' '' # collapse_hspace (dropWhile is_hspace cs)
      else c # collapse_hspace cs)"
  by pat_completeness auto
termination
  by (relation "measure length") (simp_all add: length_dropWhile_le less_Suc_eq_le)

text \<open>
  \<open>re.sub(r'\n\s*\n', '\n', sql)\<close>: at a newline, the greedy \<open>\s*\<close> takes the whole run
  of whitespace that follows and gives characters back until it stands before a
  newline, so the match reaches to the last newline of that run; it is replaced by one
  newline and the scan goes on behind it. A newline whose whitespace run holds no other
  newline is kept.
\<close>

definition after_last_nl :: "string \<Rightarrow> string" where
  "after_last_nl ws = rev (takeWhile (\<lambda>c. c \<noteq> NL) (rev ws))"

function collapse_newlines :: "string \<Rightarrow> string" where
  "collapse_newlines [] = []"
| "collapse_newlines (c # cs) =
     (if c = NL \<and> NL \<in> set (takeWhile py_isspace cs)
      then NL # collapse_newlines (after_last_nl (takeWhile py_isspace cs) @ dropWhile py_isspace cs)
      else c # collapse_newlines cs)"
  by pat_completeness auto
termination
proof (relation "measure length")
  show "wf (measure length)" by simp
next
  fix c :: char and cs :: string
  have "length (takeWhile (\<lambda>c. c \<noteq> NL) (rev (takeWhile py_isspace cs)))
          \<le> length (takeWhile py_isspace cs)"
    using length_takeWhile_le [of "\<lambda>c. c \<noteq> NL" "rev (takeWhile py_isspace cs)"] by simp
  moreover have "length (takeWhile py_isspace cs) + length (dropWhile py_isspace cs) = length cs"
    by (metis length_append takeWhile_dropWhile_id)
  ultimately show "(after_last_nl (takeWhile py_isspace cs) @ dropWhile py_isspace cs, c # cs)
      \<in> measure length"
    by (simp add: after_last_nl_def)
next
  fix c :: char and cs :: string
  show "(cs, c # cs) \<in> measure length" by simp
qed

text \<open>\<open>_clean_sql\<close>\<close>

definition clean_sql :: "string \<Rightarrow> string" where
  "clean_sql sql =
     (if sql = [] then []
      else let sql1 = remove_fences sql;
               sql2 = strip (rstrip_chars '';'' sql1);
               sql3 = collapse_hspace sql2;
               sql4 = collapse_newlines sql3
           in strip sql4)"

text \<open>
  \<open>re.search(r'```(?:sql)?\s*(.*?)\s*```', text, re.DOTALL | re.IGNORECASE)\<close>, giving
  \<open>group(1)\<close>. The matcher tries its alternatives in the order of the pattern:
  \<^item> \<open>lazy_group\<close> is \<open>(.*?)\s*```\<close>: the shortest prefix behind which whitespace and
    then a fence follow (a fence starts with no whitespace, so \<open>\s*\<close> can only stop at
    the end of the whitespace run);
  \<^item> \<open>ws_then_group k\<close> is the greedy \<open>\s*\<close> before the group: \<open>k\<close> whitespace
    characters first, then fewer;
  \<^item> \<open>fence_at\<close> is a match starting at the head of the text: the fence, then \<open>sql\<close>
    taken if it is there, and not taken if the rest fails with it;
  \<^item> \<open>search_fence\<close> tries the start positions from the left.
\<close>

fun lazy_group :: "string \<Rightarrow> string option" where
  "lazy_group [] = (if starts_with fence (dropWhile py_isspace []) then Some [] else None)"
| "lazy_group (c # cs) =
     (if starts_with fence (dropWhile py_isspace (c # cs)) then Some []
      else map_option (Cons c) (lazy_group cs))"

fun ws_then_group :: "nat \<Rightarrow> string \<Rightarrow> string option" where
  "ws_then_group 0 u = lazy_group u"
| "ws_then_group (Suc k) u =
     (case lazy_group (drop (Suc k) u) of
        Some g \<Rightarrow> Some g
      | None \<Rightarrow> ws_then_group k u)"

definition fence_body :: "string \<Rightarrow> string option" where
  "fence_body u = ws_then_group (length (takeWhile py_isspace u)) u"

definition fence_at :: "string \<Rightarrow> string option" where
  "fence_at t =
     (if starts_with fence t
      then (let r = drop 3 t
            in case (if ci_starts_with ''sql'' r then fence_body (drop 3 r) else None) of
                 Some g \<Rightarrow> Some g
               | None \<Rightarrow> fence_body r)
      else None)"

fun search_fence :: "string \<Rightarrow> string option" where
  "search_fence [] = fence_at []"
| "search_fence (c # cs) =
     (case fence_at (c # cs) of Some g \<Rightarrow> Some g | None \<Rightarrow> search_fence cs)"

text \<open>
  \<open>re.search(r'\b(SELECT|WITH|INSERT|UPDATE|DELETE)\b', text, re.IGNORECASE)\<close>, giving
  \<open>text[match.start():]\<close>. A keyword starts and ends with a word character, so the
  first \<open>\b\<close> asks for no word character before it and the second for none behind it.
  \<open>prev\<close> tells whether the character before the head of the text is a word character.
\<close>

definition sql_keywords :: "string list" where
  "sql_keywords = [''SELECT'', ''WITH'', ''INSERT'', ''UPDATE'', ''DELETE'']"

definition keyword_at :: "string \<Rightarrow> string \<Rightarrow> bool" where
  "keyword_at kw s =
     (ci_starts_with kw s \<and>
      (case drop (length kw) s of [] \<Rightarrow> True | d # _ \<Rightarrow> \<not> is_word_char d))"

fun sql_start :: "bool \<Rightarrow> string \<Rightarrow> string option" where
  "sql_start prev [] = None"
| "sql_start prev (c # cs) =
     (if \<not> prev \<and> list_ex (\<lambda>kw. keyword_at kw (c # cs)) sql_keywords then Some (c # cs)
      else sql_start (is_word_char c) cs)"

text \<open>The pattern \<open>\n\n[A-Z]\<close> of \<open>re.split\<close> (no flag: ASCII capitals only).\<close>

definition paragraph_break :: "string \<Rightarrow> bool" where
  "paragraph_break s =
     (case s of a # b # c # _ \<Rightarrow> a = NL \<and> b = NL \<and> is_ascii_upper c | _ \<Rightarrow> False)"

text \<open>\<open>_extract_sql\<close>\<close>

definition extract_sql :: "string \<Rightarrow> string" where
  "extract_sql response_text =
     (if response_text = [] then []
      else let text = strip response_text
           in case search_fence text of
                Some g \<Rightarrow> clean_sql (strip g)
              | None \<Rightarrow>
                  (case sql_start False text of
                     Some rest \<Rightarrow>
                       (let sql = strip rest;
                            sql1 = before_first paragraph_break sql;
                            sql2 = before_first (starts_with ([NL, NL] @ ''Note:'')) sql1;
                            sql3 = before_first (starts_with ([NL, NL] @ ''Explanation:'')) sql2
                        in clean_sql sql3)
                   | None \<Rightarrow> clean_sql text))"


section \<open>The warehouse session\<close>

text \<open>
  Every stage works through \<open>session.sql(...)\<close>. The warehouse, the search service and
  the completion service are outside the program, so each kind of query is an oracle of
  the gateway: it reads the state of the outside world, answers (with rows, or with the
  text of the exception it raises) and leaves a new state. The session threads that
  state through the calls and records every call made, in order.
\<close>

record column =
  column_name :: string
  description :: string
  data_type :: string
  synonyms :: string

record table_context =
  table_name :: string
  columns :: "column list"
  relevance_score :: real

text \<open>
  One entry of the \<open>results\<close> array of the search response; a key may be missing.
  Relevance scores are real numbers here; Python holds them as floating-point numbers.
\<close>

record search_item =
  item_table_name :: "string option"
  item_column_name :: "string option"
  item_description :: "string option"
  item_data_type :: "string option"
  item_synonyms :: "string option"
  item_score :: "real option"

text \<open>Rows of the metadata store (its text columns may be NULL) and of the raw catalog.\<close>

record meta_row =
  row_table_name :: string
  row_column_name :: string
  row_description :: "string option"
  row_data_type :: "string option"
  row_synonyms :: "string option"
  row_match_count :: int

record catalog_row =
  cat_table_name :: string
  cat_column_name :: string
  cat_data_type :: string

text \<open>
  The search call of \<open>link_schema\<close> either raises (the query itself, or the decoding of
  its answer) or yields the \<open>results\<close> array; an empty array stands for an answer
  without rows or without results.
\<close>

datatype search_response = SearchRaised string | SearchResults "search_item list"

datatype call =
    SearchCall string int
  | KeywordCall "string list" int
  | PartnerMetaCall "string list"
  | PartnerCatalogCall "string list"
  | CatalogCall
  | CompleteCall string
  | ExplainCall string
  | RunCall string

text \<open>
  The completion oracle is given the question, the schema context and the examples:
  the prompt is a fixed function of the three. It raises or returns the rows of the
  completion query, whose text column may be NULL.
\<close>

record ('w, 'r) gateway =
  gw_search :: "'w \<Rightarrow> string \<Rightarrow> int \<Rightarrow> search_response \<times> 'w"
  gw_keyword :: "'w \<Rightarrow> string list \<Rightarrow> int \<Rightarrow> (string + meta_row list) \<times> 'w"
  gw_partner_meta :: "'w \<Rightarrow> string list \<Rightarrow> (string + meta_row list) \<times> 'w"
  gw_partner_catalog :: "'w \<Rightarrow> string list \<Rightarrow> (string + catalog_row list) \<times> 'w"
  gw_catalog :: "'w \<Rightarrow> (string + catalog_row list) \<times> 'w"
  gw_complete :: "'w \<Rightarrow> string \<Rightarrow> table_context list \<Rightarrow> (string \<times> string) list
                    \<Rightarrow> (string + string option list) \<times> 'w"
  gw_explain :: "'w \<Rightarrow> string \<Rightarrow> string option \<times> 'w"
  gw_run :: "'w \<Rightarrow> string \<Rightarrow> (string + 'r) \<times> 'w"

record 'w session =
  world :: 'w
  calls :: "call list"

definition called :: "'w session \<Rightarrow> call \<Rightarrow> 'w \<Rightarrow> 'w session" where
  "called s c w = \<lparr>world = w, calls = calls s @ [c]\<rparr>"

definition sess_complete ::
  "('w, 'r) gateway \<Rightarrow> 'w session \<Rightarrow> string \<Rightarrow> table_context list \<Rightarrow> (string \<times> string) list
     \<Rightarrow> (string + string option list) \<times> 'w session" where
  "sess_complete G s question schema_context golden =
     (case gw_complete G (world s) question schema_context golden of
        (r, w) \<Rightarrow> (r, called s (CompleteCall question) w))"

definition sess_explain ::
  "('w, 'r) gateway \<Rightarrow> 'w session \<Rightarrow> string \<Rightarrow> string option \<times> 'w session" where
  "sess_explain G s sql =
     (case gw_explain G (world s) sql of (r, w) \<Rightarrow> (r, called s (ExplainCall sql) w))"

definition sess_run ::
  "('w, 'r) gateway \<Rightarrow> 'w session \<Rightarrow> string \<Rightarrow> (string + 'r) \<times> 'w session" where
  "sess_run G s sql =
     (case gw_run G (world s) sql of (r, w) \<Rightarrow> (r, called s (RunCall sql) w))"

section \<open>SQL generator\<close>

text \<open>\<open>generate_sql\<close>: the empty string stands for every failure.\<close>

definition generate_sql ::
  "('w, 'r) gateway \<Rightarrow> 'w session \<Rightarrow> string \<Rightarrow> table_context list \<Rightarrow> (string \<times> string) list
     \<Rightarrow> string \<times> 'w session" where
  "generate_sql G s question schema_context golden =
     (if is_blank question then ([], s)
      else if schema_context = [] then ([], s)
      else case sess_complete G s question schema_context golden of
             (Inl err, s1) \<Rightarrow> ([], s1)
           | (Inr [], s1) \<Rightarrow> ([], s1)
           | (Inr (None # _), s1) \<Rightarrow> ([], s1)
           | (Inr (Some generated_text # _), s1) \<Rightarrow>
               (if is_blank generated_text then ([], s1)
                else let sql_query = extract_sql generated_text
                     in if is_blank sql_query then ([], s1) else (sql_query, s1)))"

section \<open>Validator\<close>

datatype 'r outcome = Success 'r | Failure string

text \<open>\<open>_extract_error_message\<close>\<close>

definition remove_prefix :: "string \<Rightarrow> string \<Rightarrow> string" where
  "remove_prefix prefix cleaned =
     (if starts_with prefix cleaned then drop (length prefix) cleaned else cleaned)"

definition clean_error_line :: "string \<Rightarrow> string" where
  "clean_error_line line =
     remove_prefix ''Exception: '' (remove_prefix ''SnowflakeError: ''
       (remove_prefix ''Error: '' (strip line)))"

definition extract_error_message :: "string \<Rightarrow> string" where
  "extract_error_message error_text =
     (if error_text = [] then ''Unknown error (empty error message)''
      else let lines = split_on NL error_text
           in case filter (\<lambda>line. contains ''error'' (py_lower line)) lines of
                line # _ \<Rightarrow> clean_error_line line
              | [] \<Rightarrow>
                  (case filter (\<lambda>line. strip line \<noteq> []) lines of
                     line # _ \<Rightarrow> strip line
                   | [] \<Rightarrow> strip (take 200 error_text)))"

text \<open>
  \<open>_validate_sql\<close>: \<open>None\<close> is the pair \<open>(True, None)\<close>, \<open>Some e\<close> the pair
  \<open>(False, e)\<close>.
\<close>

definition validate_sql ::
  "('w, 'r) gateway \<Rightarrow> 'w session \<Rightarrow> string \<Rightarrow> string option \<times> 'w session" where
  "validate_sql G s sql =
     (case sess_explain G s sql of
        (None, s1) \<Rightarrow> (None, s1)
      | (Some e, s1) \<Rightarrow> (Some (extract_error_message e), s1))"

text \<open>
  \<open>_execute_sql\<close>: \<open>Inr df\<close> is the pair \<open>(df, None)\<close>, \<open>Inl e\<close> the pair
  \<open>(None, e)\<close>.
\<close>

definition execute_sql ::
  "('w, 'r) gateway \<Rightarrow> 'w session \<Rightarrow> string \<Rightarrow> (string + 'r) \<times> 'w session" where
  "execute_sql G s sql =
     (case sess_run G s sql of
        (Inr df, s1) \<Rightarrow> (Inr df, s1)
      | (Inl e, s1) \<Rightarrow> (Inl (extract_error_message e), s1))"

text \<open>\<open>_retry_with_error_feedback\<close>\<close>

definition enriched_question :: "string \<Rightarrow> string \<Rightarrow> string \<Rightarrow> string" where
  "enriched_question question error_message previous_sql =
     question @ [NL, NL]
     @ ''PREVIOUS ATTEMPT FAILED WITH ERROR:'' @ [NL]
     @ error_message @ [NL, NL]
     @ ''FAILED SQL QUERY:'' @ [NL]
     @ previous_sql @ [NL, NL]
     @ ''Please fix the SQL query to avoid this error. Review the schema carefully and ensure:'' @ [NL]
     @ ''- All table names are correct and exist in the schema'' @ [NL]
     @ ''- All column names are correct and exist in their respective tables'' @ [NL]
     @ ''- Column references are properly qualified with table names in JOINs'' @ [NL]
     @ ''- Data types are compatible in comparisons and operations'' @ [NL]
     @ ''- Aggregation functions are used correctly'' @ [NL]
     @ ''- JOIN conditions reference valid foreign key relationships'' @ [NL]"

definition retry_with_error_feedback ::
  "('w, 'r) gateway \<Rightarrow> 'w session \<Rightarrow> string \<Rightarrow> table_context list \<Rightarrow> string \<Rightarrow> string
     \<Rightarrow> string \<times> 'w session" where
  "retry_with_error_feedback G s question schema_context error_message previous_sql =
     (case generate_sql G s (enriched_question question error_message previous_sql)
             schema_context [] of
        (new_sql, s1) \<Rightarrow> if is_blank new_sql then (previous_sql, s1) else (new_sql, s1))"

text \<open>
  The state of the loop of \<open>validate_and_execute\<close>, and one pass through its body:
  either the loop goes on with a new state, or the function returns.
\<close>

record 'w retry_state =
  attempt :: int
  last_error :: "string option"
  current_sql :: string
  sess :: "'w session"

datatype ('w, 'r) iteration =
    Continue "'w retry_state"
  | Return string "'r outcome" "'w session"

definition loop_body ::
  "('w, 'r) gateway \<Rightarrow> string \<Rightarrow> table_context list \<Rightarrow> int \<Rightarrow> 'w retry_state
     \<Rightarrow> ('w, 'r) iteration" where
  "loop_body G question schema_context max_retries st =
     (case validate_sql G (sess st) (current_sql st) of
        (None, s1) \<Rightarrow>
          (case execute_sql G s1 (current_sql st) of
             (Inr result_df, s2) \<Rightarrow> Return (current_sql st) (Success result_df) s2
           | (Inl exec_error, s2) \<Rightarrow>
               (if attempt st < max_retries
                then (case retry_with_error_feedback G s2 question schema_context exec_error
                             (current_sql st) of
                        (new_sql, s3) \<Rightarrow>
                          Continue \<lparr>attempt = attempt st + 1,
                                    last_error = Some (''Execution error: '' @ exec_error),
                                    current_sql = new_sql, sess = s3\<rparr>)
                else Return (current_sql st) (Failure (''Execution error: '' @ exec_error)) s2))
      | (Some error_message, s1) \<Rightarrow>
          (if attempt st < max_retries
           then (case retry_with_error_feedback G s1 question schema_context error_message
                        (current_sql st) of
                   (new_sql, s3) \<Rightarrow>
                     Continue \<lparr>attempt = attempt st + 1, last_error = Some error_message,
                               current_sql = new_sql, sess = s3\<rparr>)
           else Return (current_sql st) (Failure error_message) s1))"

lemma loop_body_Continue_attempt:
  "loop_body G question schema_context max_retries st = Continue st'
     \<Longrightarrow> attempt st' = attempt st + 1 \<and> attempt st < max_retries"
  by (auto simp: loop_body_def split: prod.splits option.splits sum.splits if_splits)

text \<open>
  The \<open>while attempt <= max_retries\<close> loop; the code behind the loop returns the last
  error, or a fixed text when there is none.
\<close>

definition unknown_error :: string where
  "unknown_error = ''Unknown error occurred during validation''"

function retry_loop ::
  "('w, 'r) gateway \<Rightarrow> string \<Rightarrow> table_context list \<Rightarrow> int \<Rightarrow> 'w retry_state
     \<Rightarrow> string \<times> 'r outcome \<times> 'w session" where
  "retry_loop G question schema_context max_retries st =
     (if attempt st \<le> max_retries
      then (case loop_body G question schema_context max_retries st of
              Continue st' \<Rightarrow> retry_loop G question schema_context max_retries st'
            | Return final_sql result s \<Rightarrow> (final_sql, result, s))
      else (current_sql st,
            Failure (case last_error st of
                       None \<Rightarrow> unknown_error
                     | Some e \<Rightarrow> if e = [] then unknown_error else e),
            sess st))"
  by pat_completeness auto
termination
  by (relation "measure (\<lambda>(G, question, schema_context, max_retries, st).
                  nat (max_retries + 1 - attempt st))")
     (auto dest: loop_body_Continue_attempt)

text \<open>The states in which the body of the loop is run, in order.\<close>

function loop_iterations ::
  "('w, 'r) gateway \<Rightarrow> string \<Rightarrow> table_context list \<Rightarrow> int \<Rightarrow> 'w retry_state
     \<Rightarrow> 'w retry_state list" where
  "loop_iterations G question schema_context max_retries st =
     (if attempt st \<le> max_retries
      then st # (case loop_body G question schema_context max_retries st of
                   Continue st' \<Rightarrow> loop_iterations G question schema_context max_retries st'
                 | Return final_sql result s \<Rightarrow> [])
      else [])"
  by pat_completeness auto
termination
  by (relation "measure (\<lambda>(G, question, schema_context, max_retries, st).
                  nat (max_retries + 1 - attempt st))")
     (auto dest: loop_body_Continue_attempt)

declare retry_loop.simps [simp del] loop_iterations.simps [simp del]

text \<open>\<open>validate_and_execute\<close>\<close>

definition empty_sql_error :: string where
  "empty_sql_error = ''Empty SQL query provided to validator. Cannot validate empty query.''"

definition initial_state :: "string \<Rightarrow> 'w session \<Rightarrow> 'w retry_state" where
  "initial_state sql s = \<lparr>attempt = 0, last_error = None, current_sql = sql, sess = s\<rparr>"

definition validate_and_execute ::
  "('w, 'r) gateway \<Rightarrow> 'w session \<Rightarrow> string \<Rightarrow> string \<Rightarrow> table_context list \<Rightarrow> int
     \<Rightarrow> string \<times> 'r outcome \<times> 'w session" where
  "validate_and_execute G s sql question schema_context max_retries =
     (if is_blank sql then (sql, Failure empty_sql_error, s)
      else retry_loop G question schema_context (if max_retries < 0 then 0 else max_retries)
             (initial_state sql s))"


text \<open>The iterations of a call of \<open>validate_and_execute\<close>, and the calls it makes.\<close>

definition iterations ::
  "('w, 'r) gateway \<Rightarrow> 'w session \<Rightarrow> string \<Rightarrow> string \<Rightarrow> table_context list \<Rightarrow> int
     \<Rightarrow> 'w retry_state list" where
  "iterations G s sql question schema_context max_retries =
     (if is_blank sql then []
      else loop_iterations G question schema_context (if max_retries < 0 then 0 else max_retries)
             (initial_state sql s))"

definition is_explain :: "call \<Rightarrow> bool" where
  "is_explain c = (case c of ExplainCall _ \<Rightarrow> True | _ \<Rightarrow> False)"

definition is_run :: "call \<Rightarrow> bool" where
  "is_run c = (case c of RunCall _ \<Rightarrow> True | _ \<Rightarrow> False)"

definition explain_calls :: "'w session \<Rightarrow> nat" where
  "explain_calls s = length (filter is_explain (calls s))"

definition run_calls :: "'w session \<Rightarrow> nat" where
  "run_calls s = length (filter is_run (calls s))"


section \<open>Schema linker\<close>

definition sess_search ::
  "('w, 'r) gateway \<Rightarrow> 'w session \<Rightarrow> string \<Rightarrow> int \<Rightarrow> search_response \<times> 'w session" where
  "sess_search G s question search_limit =
     (case gw_search G (world s) question search_limit of
        (r, w) \<Rightarrow> (r, called s (SearchCall question search_limit) w))"

definition sess_keyword ::
  "('w, 'r) gateway \<Rightarrow> 'w session \<Rightarrow> string list \<Rightarrow> int
     \<Rightarrow> (string + meta_row list) \<times> 'w session" where
  "sess_keyword G s keywords row_limit =
     (case gw_keyword G (world s) keywords row_limit of
        (r, w) \<Rightarrow> (r, called s (KeywordCall keywords row_limit) w))"

definition sess_partner_meta ::
  "('w, 'r) gateway \<Rightarrow> 'w session \<Rightarrow> string list \<Rightarrow> (string + meta_row list) \<times> 'w session" where
  "sess_partner_meta G s names =
     (case gw_partner_meta G (world s) names of
        (r, w) \<Rightarrow> (r, called s (PartnerMetaCall names) w))"

definition sess_partner_catalog ::
  "('w, 'r) gateway \<Rightarrow> 'w session \<Rightarrow> string list
     \<Rightarrow> (string + catalog_row list) \<times> 'w session" where
  "sess_partner_catalog G s names =
     (case gw_partner_catalog G (world s) names of
        (r, w) \<Rightarrow> (r, called s (PartnerCatalogCall names) w))"

definition sess_catalog ::
  "('w, 'r) gateway \<Rightarrow> 'w session \<Rightarrow> (string + catalog_row list) \<times> 'w session" where
  "sess_catalog G s =
     (case gw_catalog G (world s) of (r, w) \<Rightarrow> (r, called s CatalogCall w))"

text \<open>
  A Python \<open>dict\<close> keeps its keys in the order of their insertion: it is a list of
  pairs without repeated keys. \<open>dict_update k new f d\<close> is
  \<open>if k not in d: d[k] = new\<close> followed by \<open>d[k] = f(d[k])\<close>.
\<close>

fun dict_update :: "string \<Rightarrow> 'v \<Rightarrow> ('v \<Rightarrow> 'v) \<Rightarrow> (string \<times> 'v) list \<Rightarrow> (string \<times> 'v) list" where
  "dict_update k new f [] = [(k, f new)]"
| "dict_update k new f ((k', v) # d) =
     (if k = k' then (k', f v) # d else (k', v) # dict_update k new f d)"

definition dict_values :: "(string \<times> 'v) list \<Rightarrow> 'v list" where
  "dict_values d = map snd d"

definition or_empty :: "string option \<Rightarrow> string" where
  "or_empty x = (case x of None \<Rightarrow> [] | Some v \<Rightarrow> v)"

definition get_or :: "'a option \<Rightarrow> 'a \<Rightarrow> 'a" where
  "get_or x d = (case x of None \<Rightarrow> d | Some v \<Rightarrow> v)"

definition add_column :: "column \<Rightarrow> table_context \<Rightarrow> table_context" where
  "add_column col t = t\<lparr>columns := columns t @ [col]\<rparr>"

text \<open>\<open>_filter_dataset_mixing\<close>\<close>

definition filter_dataset_mixing :: "table_context list \<Rightarrow> table_context list" where
  "filter_dataset_mixing tables = filter (\<lambda>t. table_name t \<noteq> ''SUPERSTORE_SALES'') tables"

text \<open>The grouping loops of \<open>_fetch_tables_by_name\<close> and \<open>_get_all_tables\<close>.\<close>

definition meta_column :: "meta_row \<Rightarrow> column" where
  "meta_column row =
     \<lparr>column_name = row_column_name row, description = or_empty (row_description row),
      data_type = or_empty (row_data_type row), synonyms = or_empty (row_synonyms row)\<rparr>"

definition catalog_column :: "catalog_row \<Rightarrow> column" where
  "catalog_column row =
     \<lparr>column_name = cat_column_name row, description = [],
      data_type = cat_data_type row, synonyms = []\<rparr>"

definition group_meta_rows :: "real \<Rightarrow> meta_row list \<Rightarrow> table_context list" where
  "group_meta_rows score rows =
     dict_values (foldl (\<lambda>tables_dict row.
        dict_update (row_table_name row)
          \<lparr>table_name = row_table_name row, columns = [], relevance_score = score\<rparr>
          (add_column (meta_column row)) tables_dict) [] rows)"

definition group_catalog_rows :: "real \<Rightarrow> catalog_row list \<Rightarrow> table_context list" where
  "group_catalog_rows score rows =
     dict_values (foldl (\<lambda>tables_dict row.
        dict_update (cat_table_name row)
          \<lparr>table_name = cat_table_name row, columns = [], relevance_score = score\<rparr>
          (add_column (catalog_column row)) tables_dict) [] rows)"

text \<open>
  \<open>_get_all_tables\<close>. The slice \<open>[:limit]\<close>, here and in the other tiers, is
  \<open>take (nat limit)\<close>: \<open>link_schema\<close> passes a limit of at least 1 to every tier.
\<close>

definition get_all_tables ::
  "('w, 'r) gateway \<Rightarrow> 'w session \<Rightarrow> int \<Rightarrow> table_context list \<times> 'w session" where
  "get_all_tables G s limit =
     (case sess_catalog G s of
        (Inr rows, s1) \<Rightarrow> (take (nat limit) (group_catalog_rows 0.1 rows), s1)
      | (Inl e3, s1) \<Rightarrow> ([], s1))"

text \<open>\<open>_fetch_tables_by_name\<close>\<close>

definition fetch_from_catalog ::
  "('w, 'r) gateway \<Rightarrow> 'w session \<Rightarrow> string list \<Rightarrow> table_context list \<times> 'w session" where
  "fetch_from_catalog G s table_names =
     (case sess_partner_catalog G s table_names of
        (Inr rows, s1) \<Rightarrow> (group_catalog_rows 0.3 rows, s1)
      | (Inl e, s1) \<Rightarrow> ([], s1))"

definition fetch_tables_by_name ::
  "('w, 'r) gateway \<Rightarrow> 'w session \<Rightarrow> string list \<Rightarrow> table_context list \<times> 'w session" where
  "fetch_tables_by_name G s table_names =
     (if table_names = [] then ([], s)
      else case sess_partner_meta G s table_names of
             (Inr rows, s1) \<Rightarrow>
               (if rows \<noteq> [] then (group_meta_rows 0.4 rows, s1)
                else fetch_from_catalog G s1 table_names)
           | (Inl e, s1) \<Rightarrow> fetch_from_catalog G s1 table_names)"

text \<open>
  \<open>_supplement_related_tables\<close>. \<open>needed\<close> is a Python set, listed in an order of its
  own; it never holds more than one name (\<open>needed_partners_at_most_one\<close> below), so the
  order does not show.
\<close>

definition fk_partners :: "string \<Rightarrow> string list" where
  "fk_partners name =
     (if name = ''ORDER_ITEMS'' then [''ORDERS'']
      else if name = ''ORDER_REVIEWS'' then [''ORDERS'']
      else if name = ''ORDER_PAYMENTS'' then [''ORDERS'']
      else if name = ''ORDERS'' then [''CUSTOMERS'']
      else [])"

definition needed_partners :: "table_context list \<Rightarrow> string list" where
  "needed_partners tables =
     remdups (concat (map (\<lambda>t. filter (\<lambda>partner. partner \<notin> set (map table_name tables))
                                      (fk_partners (table_name t))) tables))"

definition supplement_related_tables ::
  "('w, 'r) gateway \<Rightarrow> 'w session \<Rightarrow> table_context list \<Rightarrow> int
     \<Rightarrow> table_context list \<times> 'w session" where
  "supplement_related_tables G s tables limit =
     (let needed = needed_partners tables
      in if needed = [] then (tables, s)
         else case fetch_tables_by_name G s needed of
                (partner_tables, s1) \<Rightarrow> (tables @ partner_tables, s1))"

text \<open>\<open>_fallback_keyword_search\<close>\<close>

definition stopwords :: "string list" where
  "stopwords =
     [''what'', ''which'', ''where'', ''when'', ''who'', ''how'', ''many'', ''much'',
      ''have'', ''been'', ''that'', ''this'', ''with'', ''from'', ''they'', ''each'',
      ''highest'', ''lowest'', ''average'', ''total'', ''count'', ''find'', ''show'',
      ''list'', ''give'', ''most'', ''least'', ''more'', ''than'', ''over'', ''last'',
      ''first'', ''were'', ''does'', ''also'', ''into'', ''some'', ''only'', ''their'',
      ''there'', ''these'', ''those'', ''very'', ''just'', ''been'', ''will'', ''would'',
      ''could'', ''should'', ''across'', ''between'', ''within'', ''using'', ''based'']"

definition quote_chars :: string where
  "quote_chars = [CHR 0x27, CHR 0x22, CHR ''?'', CHR '','']"

definition question_keywords :: "string \<Rightarrow> string list" where
  "question_keywords question =
     (let raw_words = map (strip_chars quote_chars) (split_ws (py_lower question));
          keywords = filter (\<lambda>w. length w > 3 \<and> w \<notin> set stopwords) raw_words;
          keywords = (if keywords = [] then filter (\<lambda>w. length w > 3) raw_words else keywords);
          keywords = (if keywords = [] then raw_words else keywords)
      in take 10 keywords)"

text \<open>
  The grouping loop of the keyword tier: every table keeps the match count of its
  first row. Python's \<open>sorted(..., reverse=True)\<close> is stable, as \<open>sort_key\<close> on the
  negated key is.
\<close>

definition group_keyword_rows :: "meta_row list \<Rightarrow> (table_context \<times> int) list" where
  "group_keyword_rows rows =
     dict_values (foldl (\<lambda>tables_dict row.
        dict_update (row_table_name row)
          (\<lparr>table_name = row_table_name row, columns = [], relevance_score = 0.5\<rparr>,
           row_match_count row)
          (\<lambda>(t, match_count). (add_column (meta_column row) t, match_count)) tables_dict)
        [] rows)"

definition keyword_tables :: "meta_row list \<Rightarrow> int \<Rightarrow> table_context list" where
  "keyword_tables rows limit =
     (let tables_list = sort_key (\<lambda>(t, match_count). - match_count) (group_keyword_rows rows);
          result = take (nat limit) (map fst tables_list)
      in filter_dataset_mixing result)"

definition fallback_keyword_search ::
  "('w, 'r) gateway \<Rightarrow> 'w session \<Rightarrow> string \<Rightarrow> int \<Rightarrow> table_context list \<times> 'w session" where
  "fallback_keyword_search G s question limit =
     (case sess_keyword G s (question_keywords question) (limit * 15) of
        (Inr rows, s1) \<Rightarrow>
          (if rows = [] then get_all_tables G s1 limit
           else supplement_related_tables G s1 (keyword_tables rows limit) limit)
      | (Inl e2, s1) \<Rightarrow> get_all_tables G s1 limit)"

text \<open>
  The semantic-search tier of \<open>link_schema\<close>: group the matches by table, average the
  scores of each table, sort by the average (descending, stable), filter, truncate.
\<close>

record scored_table =
  st_table_name :: string
  st_columns :: "column list"
  st_relevance_scores :: "real list"

definition item_column :: "search_item \<Rightarrow> column" where
  "item_column result_item =
     \<lparr>column_name = get_or (item_column_name result_item) ''UNKNOWN'',
      description = get_or (item_description result_item) [],
      data_type = get_or (item_data_type result_item) ''UNKNOWN'',
      synonyms = get_or (item_synonyms result_item) []\<rparr>"

definition add_search_item :: "(string \<times> scored_table) list \<Rightarrow> search_item
     \<Rightarrow> (string \<times> scored_table) list" where
  "add_search_item tables_dict result_item =
     (let table_name = get_or (item_table_name result_item) ''UNKNOWN''
      in dict_update table_name
           \<lparr>st_table_name = table_name, st_columns = [], st_relevance_scores = []\<rparr>
           (\<lambda>t. t\<lparr>st_columns := st_columns t @ [item_column result_item],
                   st_relevance_scores :=
                     st_relevance_scores t @ [get_or (item_score result_item) 0]\<rparr>)
           tables_dict)"

definition average_score :: "scored_table \<Rightarrow> table_context" where
  "average_score t =
     \<lparr>table_name = st_table_name t, columns = st_columns t,
      relevance_score =
        (if st_relevance_scores t = [] then 0
         else sum_list (st_relevance_scores t) / real (length (st_relevance_scores t)))\<rparr>"

definition search_tables :: "search_item list \<Rightarrow> int \<Rightarrow> table_context list" where
  "search_tables results limit =
     (let tables_dict = foldl add_search_item [] results;
          tables_list = map average_score (dict_values tables_dict);
          tables_list = sort_key (\<lambda>t. - relevance_score t) tables_list;
          tables_list = filter_dataset_mixing tables_list
      in take (nat limit) tables_list)"

text \<open>\<open>link_schema\<close>; a limit below 1 is replaced by 5.\<close>

definition effective_limit :: "int \<Rightarrow> int" where
  "effective_limit limit = (if limit < 1 then 5 else limit)"

definition link_schema ::
  "('w, 'r) gateway \<Rightarrow> 'w session \<Rightarrow> string \<Rightarrow> int \<Rightarrow> table_context list \<times> 'w session" where
  "link_schema G s question limit0 =
     (if is_blank question then ([], s)
      else let limit = effective_limit limit0
           in case sess_search G s question (limit * 10) of
                (SearchResults results, s1) \<Rightarrow>
                  (if results = [] then ([], s1) else (search_tables results limit, s1))
              | (SearchRaised error_msg, s1) \<Rightarrow>
                  (if contains ''does not exist'' (py_lower error_msg)
                      \<and> contains ''schema_search_service'' (py_lower error_msg)
                   then fallback_keyword_search G s1 question limit
                   else if contains ''table_descriptions'' (py_lower error_msg)
                   then ([], s1)
                   else fallback_keyword_search G s1 question limit))"

section \<open>Example gateways\<close>

text \<open>
  Concrete outside worlds, on which the functions can be run. The world of
  \<open>quiet_gateway\<close> never changes: the search service and every catalogue query answer
  with nothing, the completion service answers with a fenced \<open>SELECT 2;\<close>, and every
  statement explains and runs, the result handle being the statement itself.
\<close>

definition fenced_select_2 :: string where
  "fenced_select_2 = fence @ ''sql'' @ [NL] @ ''SELECT 2;'' @ [NL] @ fence"

definition quiet_gateway :: "(unit, string) gateway" where
  "quiet_gateway =
     \<lparr>gw_search = (\<lambda>w question n. (SearchResults [], w)),
      gw_keyword = (\<lambda>w keywords n. (Inr [], w)),
      gw_partner_meta = (\<lambda>w names. (Inr [], w)),
      gw_partner_catalog = (\<lambda>w names. (Inr [], w)),
      gw_catalog = (\<lambda>w. (Inr [], w)),
      gw_complete = (\<lambda>w question schema_context golden. (Inr [Some fenced_select_2], w)),
      gw_explain = (\<lambda>w sql. (None, w)),
      gw_run = (\<lambda>w sql. (Inr sql, w))\<rparr>"

text \<open>A warehouse that rejects every statement at EXPLAIN.\<close>

definition rejecting_gateway :: "(unit, string) gateway" where
  "rejecting_gateway =
     quiet_gateway\<lparr>gw_explain := (\<lambda>w sql. (Some ''Error: SQL compilation error'', w))\<rparr>"

text \<open>The same warehouse, with a completion service that is down.\<close>

definition speechless_gateway :: "(unit, string) gateway" where
  "speechless_gateway =
     rejecting_gateway\<lparr>gw_complete :=
       (\<lambda>w question schema_context golden. (Inl ''model not found'', w))\<rparr>"

definition orders_context :: "table_context list" where
  "orders_context =
     [\<lparr>table_name = ''ORDERS'',
       columns = [\<lparr>column_name = ''ORDER_ID'', description = ''Order identifier'',
                   data_type = ''VARCHAR'', synonyms = ''order number''\<rparr>],
       relevance_score = 0.5\<rparr>]"

definition fresh_session :: "unit session" where
  "fresh_session = \<lparr>world = (), calls = []\<rparr>"

text \<open>
  A catalogue that holds the Olist tables and the unrelated retail table; the search
  service does not exist.
\<close>

definition search_service_missing :: string where
  "search_service_missing =
     ''Cortex Search Service SCHEMA_SEARCH_SERVICE does not exist or not authorized.''"

definition raw_catalog :: "catalog_row list" where
  "raw_catalog =
     [\<lparr>cat_table_name = ''ORDERS'', cat_column_name = ''ORDER_ID'', cat_data_type = ''TEXT''\<rparr>,
      \<lparr>cat_table_name = ''ORDERS'', cat_column_name = ''CUSTOMER_ID'', cat_data_type = ''TEXT''\<rparr>,
      \<lparr>cat_table_name = ''SUPERSTORE_SALES'', cat_column_name = ''ROW_ID'',
        cat_data_type = ''NUMBER''\<rparr>]"

definition metadata_store :: "meta_row list" where
  "metadata_store =
     [\<lparr>row_table_name = ''ORDERS'', row_column_name = ''ORDER_ID'',
        row_description = Some ''Order identifier'', row_data_type = Some ''TEXT'',
        row_synonyms = None, row_match_count = 0\<rparr>,
      \<lparr>row_table_name = ''ORDER_ITEMS'', row_column_name = ''PRICE'',
        row_description = Some ''Item price'', row_data_type = Some ''NUMBER'',
        row_synonyms = Some ''cost'', row_match_count = 0\<rparr>]"

text \<open>Without metadata: the keyword query finds nothing.\<close>

definition bare_gateway :: "(unit, string) gateway" where
  "bare_gateway =
     quiet_gateway\<lparr>gw_search := (\<lambda>w question n. (SearchRaised search_service_missing, w)),
                   gw_catalog := (\<lambda>w. (Inr raw_catalog, w))\<rparr>"

text \<open>
  With metadata: the keyword query matches the price column of \<open>ORDER_ITEMS\<close>, and the
  query for partner tables selects the rows of the tables asked for.
\<close>

definition olist_gateway :: "(unit, string) gateway" where
  "olist_gateway =
     bare_gateway\<lparr>gw_keyword := (\<lambda>w keywords n.
                     (Inr [\<lparr>row_table_name = ''ORDER_ITEMS'', row_column_name = ''PRICE'',
                            row_description = Some ''Item price'',
                            row_data_type = Some ''NUMBER'', row_synonyms = Some ''cost'',
                            row_match_count = 1\<rparr>], w)),
                  gw_partner_meta := (\<lambda>w names.
                     (Inr (filter (\<lambda>row. row_table_name row \<in> set names) metadata_store), w))\<rparr>"

text \<open>
  The same, with a metadata store that cannot be queried for partner tables: they come
  from the raw catalogue.
\<close>

definition catalog_only_gateway :: "(unit, string) gateway" where
  "catalog_only_gateway =
     olist_gateway\<lparr>gw_partner_meta := (\<lambda>w names.
                       (Inl ''Object TABLE_DESCRIPTIONS does not exist.'', w)),
                   gw_partner_catalog := (\<lambda>w names.
                       (Inr (filter (\<lambda>row. cat_table_name row \<in> set names) raw_catalog), w))\<rparr>"

text \<open>A search that fails because the metadata table is missing.\<close>

definition no_metadata_gateway :: "(unit, string) gateway" where
  "no_metadata_gateway =
     bare_gateway\<lparr>gw_search := (\<lambda>w question n.
        (SearchRaised ''SQL compilation error: Object TABLE_DESCRIPTIONS does not exist.'', w))\<rparr>"

section \<open>The retry loop: calls and attempts\<close>

lemma generate_sql_calls:
  "generate_sql G s q sc g = (sql, s1) \<Longrightarrow> calls s1 = calls s \<or> calls s1 = calls s @ [CompleteCall q]"
  by (auto simp: generate_sql_def sess_complete_def called_def Let_def
           split: if_splits prod.splits sum.splits list.splits option.splits)

lemma retry_calls:
  assumes "retry_with_error_feedback G s q sc e prev = (sql, s1)"
  shows "explain_calls s1 = explain_calls s \<and> run_calls s1 = run_calls s"
proof -
  obtain new_sql where g: "generate_sql G s (enriched_question q e prev) sc [] = (new_sql, s1)"
    using assms by (auto simp: retry_with_error_feedback_def split: prod.splits if_splits)
  from generate_sql_calls [OF g]
  show ?thesis
    by (auto simp: explain_calls_def run_calls_def is_explain_def is_run_def)
qed

lemma validate_sql_calls:
  "validate_sql G s sql = (r, s1) \<Longrightarrow>
     explain_calls s1 = explain_calls s + 1 \<and> run_calls s1 = run_calls s"
  by (auto simp: validate_sql_def sess_explain_def called_def explain_calls_def run_calls_def
        is_explain_def is_run_def split: prod.splits option.splits)

lemma execute_sql_calls:
  "execute_sql G s sql = (r, s1) \<Longrightarrow>
     explain_calls s1 = explain_calls s \<and> run_calls s1 = run_calls s + 1"
  by (auto simp: execute_sql_def sess_run_def called_def explain_calls_def run_calls_def
        is_explain_def is_run_def split: prod.splits sum.splits)

lemma loop_body_Continue_calls:
  assumes "loop_body G q sc N st = Continue st'"
  shows "explain_calls (sess st') = explain_calls (sess st) + 1
         \<and> run_calls (sess st') \<le> run_calls (sess st) + 1"
proof -
  obtain v s1 where v: "validate_sql G (sess st) (current_sql st) = (v, s1)"
    by (cases "validate_sql G (sess st) (current_sql st)")
  note c1 = validate_sql_calls [OF v]
  show ?thesis
  proof (cases v)
    case (Some e)
    with assms v obtain new_sql where
      r: "retry_with_error_feedback G s1 q sc e (current_sql st) = (new_sql, sess st')"
      by (auto simp: loop_body_def split: if_splits prod.splits)
    from retry_calls [OF r] c1 show ?thesis by simp
  next
    case None
    obtain x s2 where x: "execute_sql G s1 (current_sql st) = (x, s2)"
      by (cases "execute_sql G s1 (current_sql st)")
    note c2 = execute_sql_calls [OF x]
    from assms v None x obtain e new_sql where
      r: "retry_with_error_feedback G s2 q sc e (current_sql st) = (new_sql, sess st')"
      by (auto simp: loop_body_def split: if_splits prod.splits sum.splits)
    from retry_calls [OF r] c1 c2 show ?thesis by simp
  qed
qed

lemma loop_body_Return_calls:
  assumes "loop_body G q sc N st = Return f r s'"
  shows "explain_calls s' = explain_calls (sess st) + 1
         \<and> run_calls s' \<le> run_calls (sess st) + 1"
proof -
  obtain v s1 where v: "validate_sql G (sess st) (current_sql st) = (v, s1)"
    by (cases "validate_sql G (sess st) (current_sql st)")
  note c1 = validate_sql_calls [OF v]
  show ?thesis
  proof (cases v)
    case (Some e)
    with assms v have "s' = s1"
      by (auto simp: loop_body_def split: if_splits prod.splits)
    with c1 show ?thesis by simp
  next
    case None
    obtain x s2 where x: "execute_sql G s1 (current_sql st) = (x, s2)"
      by (cases "execute_sql G s1 (current_sql st)")
    note c2 = execute_sql_calls [OF x]
    from assms v None x have "s' = s2"
      by (auto simp: loop_body_def split: if_splits prod.splits sum.splits)
    with c1 c2 show ?thesis by simp
  qed
qed

lemma retry_loop_calls:
  "attempt st \<le> N \<Longrightarrow> retry_loop G q sc N st = (f, r, s') \<Longrightarrow>
     explain_calls s' = explain_calls (sess st) + length (loop_iterations G q sc N st)
     \<and> run_calls s' \<le> run_calls (sess st) + length (loop_iterations G q sc N st)"
proof (induction G q sc N st rule: retry_loop.induct)
  case (1 G q sc N st)
  show ?case
  proof (cases "loop_body G q sc N st")
    case (Continue st')
    from loop_body_Continue_attempt [OF Continue] have le: "attempt st' \<le> N" by simp
    from "1.prems" Continue have "retry_loop G q sc N st' = (f, r, s')"
      by (simp add: retry_loop.simps [of G q sc N st])
    from "1.IH" [OF "1.prems"(1) Continue le this] loop_body_Continue_calls [OF Continue]
    show ?thesis
      using "1.prems"(1) Continue by (simp add: loop_iterations.simps [of G q sc N st])
  next
    case (Return f' r' s'')
    with "1.prems" have "s'' = s'" by (simp add: retry_loop.simps [of G q sc N st])
    with loop_body_Return_calls [OF Return] "1.prems"(1) Return show ?thesis
      by (simp add: loop_iterations.simps [of G q sc N st])
  qed
qed

lemma loop_iterations_attempts:
  "map attempt (loop_iterations G q sc N st)
     = map (\<lambda>i. attempt st + int i) [0..<length (loop_iterations G q sc N st)]
   \<and> int (length (loop_iterations G q sc N st)) \<le> max 0 (N + 1 - attempt st)"
proof (induction G q sc N st rule: loop_iterations.induct)
  case (1 G q sc N st)
  show ?case
  proof (cases "attempt st \<le> N")
    case False
    then show ?thesis by (simp add: loop_iterations.simps [of G q sc N st])
  next
    case le: True
    show ?thesis
    proof (cases "loop_body G q sc N st")
      case (Continue st')
      from loop_body_Continue_attempt [OF Continue] have a: "attempt st' = attempt st + 1" by simp
      have eq: "loop_iterations G q sc N st = st # loop_iterations G q sc N st'"
        using le Continue by (simp add: loop_iterations.simps [of G q sc N st])
      let ?n = "length (loop_iterations G q sc N st')"
      from "1.IH" [OF le Continue] a
      have ih: "map attempt (loop_iterations G q sc N st')
                 = map (\<lambda>i. attempt st + 1 + int i) [0..<?n]"
        and len: "int ?n \<le> max 0 (N + 1 - (attempt st + 1))" by simp_all
      have "map (\<lambda>i. attempt st + int i) [0..<Suc ?n]
              = attempt st # map (\<lambda>i. attempt st + 1 + int i) [0..<?n]"
        by (simp add: upt_conv_Cons map_Suc_upt [symmetric] del: upt_Suc)
      with ih len le show ?thesis by (simp add: eq del: upt_Suc)
    next
      case (Return f r s)
      with le show ?thesis by (simp add: loop_iterations.simps [of G q sc N st])
    qed
  qed
qed

lemma loop_iterations_last:
  "attempt st \<le> N \<Longrightarrow> retry_loop G q sc N st = (f, r, s') \<Longrightarrow>
     loop_iterations G q sc N st \<noteq> [] \<and>
     loop_body G q sc N (last (loop_iterations G q sc N st)) = Return f r s'"
proof (induction G q sc N st rule: retry_loop.induct)
  case (1 G q sc N st)
  show ?case
  proof (cases "loop_body G q sc N st")
    case (Continue st')
    from loop_body_Continue_attempt [OF Continue] have le: "attempt st' \<le> N" by simp
    from "1.prems" Continue have "retry_loop G q sc N st' = (f, r, s')"
      by (simp add: retry_loop.simps [of G q sc N st])
    from "1.IH" [OF "1.prems"(1) Continue le this]
    show ?thesis
      using "1.prems"(1) Continue by (simp add: loop_iterations.simps [of G q sc N st])
  next
    case (Return f' r' s'')
    with "1.prems" show ?thesis
      by (simp add: retry_loop.simps [of G q sc N st] loop_iterations.simps [of G q sc N st])
  qed
qed

section \<open>Claims about the validator\<close>

text \<open>
  Claim C1 (retry bound). For every \<open>max_retries = N\<close>, question, candidate SQL and
  schema context, a call of \<open>validate_and_execute\<close> makes at most \<open>N + 1\<close> EXPLAIN
  calls and at most \<open>N + 1\<close> run calls (a negative \<open>N\<close> counts as 0). It makes exactly
  one EXPLAIN call in each iteration of the loop; the attempt counter takes the values
  0, 1, 2, ... in the successive iterations, so it never decreases; and the loop always
  ends, by one of the two \<open>return\<close> statements of its body: with the rows (Succeeded) or
  with the last error (Failed). The function is total, so the call always returns.
\<close>

theorem validate_and_execute_retry_bound:
  assumes "validate_and_execute G s sql question schema_context N = (final_sql, result, s')"
  shows "explain_calls s' \<le> explain_calls s + (nat N + 1)
       \<and> run_calls s' \<le> run_calls s + (nat N + 1)
       \<and> explain_calls s' = explain_calls s + length (iterations G s sql question schema_context N)
       \<and> map attempt (iterations G s sql question schema_context N)
           = map int [0..<length (iterations G s sql question schema_context N)]
       \<and> sorted (map attempt (iterations G s sql question schema_context N))
       \<and> (if is_blank sql then result = Failure empty_sql_error
           else iterations G s sql question schema_context N \<noteq> []
              \<and> loop_body G question schema_context (if N < 0 then 0 else N)
                   (last (iterations G s sql question schema_context N))
                 = Return final_sql result s')"
proof (cases "is_blank sql")
  case True
  with assms show ?thesis
    by (simp add: validate_and_execute_def iterations_def)
next
  case False
  let ?N = "if N < 0 then 0 else N"
  let ?st = "initial_state sql s"
  let ?its = "loop_iterations G question schema_context ?N ?st"
  have its: "iterations G s sql question schema_context N = ?its"
    using False by (simp add: iterations_def)
  have le: "attempt ?st \<le> ?N" by (simp add: initial_state_def)
  have loop: "retry_loop G question schema_context ?N ?st = (final_sql, result, s')"
    using assms False by (simp add: validate_and_execute_def)
  have s0: "sess ?st = s" "attempt ?st = 0" by (simp_all add: initial_state_def)
  from retry_loop_calls [OF le loop] s0
  have calls: "explain_calls s' = explain_calls s + length ?its"
    "run_calls s' \<le> run_calls s + length ?its" by simp_all
  from loop_iterations_attempts [of G question schema_context ?N ?st] s0
  have att: "map attempt ?its = map int [0..<length ?its]"
    and len0: "int (length ?its) \<le> max 0 (?N + 1)" by simp_all
  have "max 0 (?N + 1) \<le> int (nat N + 1)" by simp
  with len0 have "int (length ?its) \<le> int (nat N + 1)" by (rule order_trans)
  then have len: "length ?its \<le> nat N + 1" by (simp only: of_nat_le_iff)
  have "sorted (map int [0..<length ?its])"
    by (simp add: sorted_map sorted_wrt_iff_nth_less)
  with att have srt: "sorted (map attempt ?its)" by simp
  from loop_iterations_last [OF le loop] calls att len srt False
  show ?thesis by (simp add: its)
qed

theorem validate_and_execute_retry_bound_witness:
  "validate_and_execute rejecting_gateway fresh_session ''SELECT 1'' ''How many orders?'' orders_context 1
     = (''SELECT 2'', Failure ''SQL compilation error'',
        \<lparr>world = (), calls = [ExplainCall ''SELECT 1'',
            CompleteCall (enriched_question ''How many orders?'' ''SQL compilation error'' ''SELECT 1''),
            ExplainCall ''SELECT 2'']\<rparr>)
   \<and> explain_calls \<lparr>world = (), calls = [ExplainCall ''SELECT 1'',
            CompleteCall (enriched_question ''How many orders?'' ''SQL compilation error'' ''SELECT 1''),
            ExplainCall ''SELECT 2'']\<rparr> \<le> explain_calls fresh_session + (nat 1 + 1)
   \<and> map attempt (iterations rejecting_gateway fresh_session ''SELECT 1'' ''How many orders?'' orders_context 1) = [0, 1]"
proof -
  have run: "validate_and_execute rejecting_gateway fresh_session ''SELECT 1'' ''How many orders?'' orders_context 1
     = (''SELECT 2'', Failure ''SQL compilation error'',
        \<lparr>world = (), calls = [ExplainCall ''SELECT 1'',
            CompleteCall (enriched_question ''How many orders?'' ''SQL compilation error'' ''SELECT 1''),
            ExplainCall ''SELECT 2'']\<rparr>)"
    by code_simp
  have len: "length (iterations rejecting_gateway fresh_session ''SELECT 1'' ''How many orders?'' orders_context 1) = 2"
    by code_simp
  from validate_and_execute_retry_bound [OF run] len run show ?thesis
    by (simp add: numeral_2_eq_2)
qed

lemma generate_sql_empty_or_not_blank:
  "generate_sql G s q sc g = (sql, s1) \<Longrightarrow> sql = [] \<or> \<not> is_blank sql"
  by (auto simp: generate_sql_def Let_def
           split: if_splits prod.splits sum.splits list.splits option.splits)

lemma retry_with_error_feedback_result:
  assumes "retry_with_error_feedback G s q sc e prev = (sql, s1)"
  shows "\<exists>new_sql. generate_sql G s (enriched_question q e prev) sc [] = (new_sql, s1)
           \<and> sql = (if new_sql \<noteq> [] then new_sql else prev)"
proof -
  obtain new_sql s2 where g: "generate_sql G s (enriched_question q e prev) sc [] = (new_sql, s2)"
    by (cases "generate_sql G s (enriched_question q e prev) sc []")
  from generate_sql_empty_or_not_blank [OF g] have "is_blank new_sql \<longleftrightarrow> new_sql = []"
    by (auto simp: is_blank_def)
  with assms g show ?thesis
    by (auto simp: retry_with_error_feedback_def split: if_splits)
qed

text \<open>
  Claim C8 (retry step). Whenever an iteration of the loop goes on to another one,
  regeneration was invoked: the iteration failed at EXPLAIN or at execution with some
  error message, and \<open>generate_sql\<close> was called with the enriched question (the
  question, that error message and the failed SQL) and the same schema context. If it
  yields a non-empty string, \<open>current_sql\<close> becomes that string; if it yields the empty
  string, \<open>current_sql\<close> stays the failed SQL. In both cases \<open>attempt\<close> grows by one.
\<close>

theorem retry_step_updates_state:
  assumes "loop_body G question schema_context max_retries st = Continue st'"
  shows "\<exists>error_message s1 new_sql.
      (validate_sql G (sess st) (current_sql st) = (Some error_message, s1)
        \<or> (\<exists>s0. validate_sql G (sess st) (current_sql st) = (None, s0)
                 \<and> execute_sql G s0 (current_sql st) = (Inl error_message, s1)))
      \<and> generate_sql G s1 (enriched_question question error_message (current_sql st))
            schema_context [] = (new_sql, sess st')
      \<and> attempt st' = attempt st + 1
      \<and> current_sql st' = (if new_sql \<noteq> [] then new_sql else current_sql st)"
proof -
  obtain v s0 where v: "validate_sql G (sess st) (current_sql st) = (v, s0)"
    by (cases "validate_sql G (sess st) (current_sql st)")
  note att = loop_body_Continue_attempt [OF assms]
  show ?thesis
  proof (cases v)
    case (Some e)
    with assms v obtain sql where
      r: "retry_with_error_feedback G s0 question schema_context e (current_sql st) = (sql, sess st')"
      and c: "current_sql st' = sql"
      by (auto simp: loop_body_def split: if_splits prod.splits)
    from retry_with_error_feedback_result [OF r] c v Some att show ?thesis by auto
  next
    case None
    obtain x s1 where x: "execute_sql G s0 (current_sql st) = (x, s1)"
      by (cases "execute_sql G s0 (current_sql st)")
    from assms v None x obtain e sql where
      e: "x = Inl e" and
      r: "retry_with_error_feedback G s1 question schema_context e (current_sql st) = (sql, sess st')"
      and c: "current_sql st' = sql"
      by (auto simp: loop_body_def split: if_splits prod.splits sum.splits)
    from retry_with_error_feedback_result [OF r] c v None x e att show ?thesis by auto
  qed
qed

theorem retry_step_updates_state_witness:
  "(\<exists>st'. loop_body rejecting_gateway ''How many orders?'' orders_context 1
             (initial_state ''SELECT 1'' fresh_session) = Continue st'
          \<and> attempt st' = 1 \<and> current_sql st' = ''SELECT 2'')
   \<and> (\<exists>st'. loop_body speechless_gateway ''How many orders?'' orders_context 1
             (initial_state ''SELECT 1'' fresh_session) = Continue st'
          \<and> attempt st' = 1 \<and> current_sql st' = ''SELECT 1'')"
proof -
  let ?e = "enriched_question ''How many orders?'' ''SQL compilation error'' ''SELECT 1''"
  let ?s = "\<lparr>world = (), calls = [ExplainCall ''SELECT 1'', CompleteCall ?e]\<rparr>"
  let ?a = "\<lparr>attempt = 1, last_error = Some ''SQL compilation error'',
             current_sql = ''SELECT 2'', sess = ?s\<rparr>"
  let ?b = "\<lparr>attempt = 1, last_error = Some ''SQL compilation error'',
             current_sql = ''SELECT 1'', sess = ?s\<rparr>"
  have a: "loop_body rejecting_gateway ''How many orders?'' orders_context 1
             (initial_state ''SELECT 1'' fresh_session) = Continue ?a"
    by code_simp
  have b: "loop_body speechless_gateway ''How many orders?'' orders_context 1
             (initial_state ''SELECT 1'' fresh_session) = Continue ?b"
    by code_simp
  have ga: "generate_sql rejecting_gateway \<lparr>world = (), calls = [ExplainCall ''SELECT 1'']\<rparr>
              ?e orders_context [] = (''SELECT 2'', ?s)"
    by code_simp
  have gb: "generate_sql speechless_gateway \<lparr>world = (), calls = [ExplainCall ''SELECT 1'']\<rparr>
              ?e orders_context [] = ([], ?s)"
    by code_simp
  from retry_step_updates_state [OF a] have "attempt ?a = 0 + 1"
    by (auto simp: initial_state_def)
  moreover from retry_step_updates_state [OF b] have "attempt ?b = 0 + 1"
    by (auto simp: initial_state_def)
  ultimately show ?thesis using a b by simp
qed

text \<open>
  Claim C4 (empty-input safety). \<open>link_schema\<close> with an empty or whitespace-only
  question returns the empty sequence; \<open>generate_sql\<close> with an empty schema context
  returns the empty string, whatever the question; \<open>validate_and_execute\<close> with empty
  (or whitespace-only) candidate SQL returns the failure message. In all three cases
  the session is returned as it was: no call is made to the outside.
\<close>

theorem empty_input_safety:
  "(is_blank question \<longrightarrow> link_schema G s question limit = ([], s))
   \<and> generate_sql G s question [] golden = ([], s)
   \<and> (is_blank sql \<longrightarrow>
        validate_and_execute G s sql question schema_context max_retries
          = (sql, Failure empty_sql_error, s))"
  by (simp add: link_schema_def generate_sql_def validate_and_execute_def)

theorem empty_input_safety_witness:
  "is_blank '''' \<and> is_blank ''  ''
   \<and> link_schema quiet_gateway fresh_session '''' 5 = ([], fresh_session)
   \<and> link_schema quiet_gateway fresh_session ''  '' 5 = ([], fresh_session)
   \<and> generate_sql quiet_gateway fresh_session ''question'' [] [] = ([], fresh_session)
   \<and> validate_and_execute quiet_gateway fresh_session '''' ''question'' orders_context 3
        = ('''', Failure empty_sql_error, fresh_session)
   \<and> calls fresh_session = []"
proof -
  have b: "is_blank ''''" "is_blank ''  ''" by code_simp+
  from empty_input_safety [of "''''" quiet_gateway fresh_session 5 "[]" "''''" orders_context 3]
       empty_input_safety [of "''  ''" quiet_gateway fresh_session 5 "[]" "''''" orders_context 3]
       empty_input_safety [of "''question''" quiet_gateway fresh_session 5 "[]" "''''" orders_context 3]
       b
  show ?thesis by (simp add: fresh_session_def)
qed

section \<open>Schema linker: calls\<close>

lemma get_all_tables_calls:
  "get_all_tables G s limit = (r, s') \<Longrightarrow> calls s' = calls s @ [CatalogCall]"
  by (auto simp: get_all_tables_def sess_catalog_def called_def split: prod.splits sum.splits)

lemma fetch_tables_by_name_calls:
  "fetch_tables_by_name G s names = (r, s') \<Longrightarrow> \<exists>rest. calls s' = calls s @ rest"
  by (auto simp: fetch_tables_by_name_def fetch_from_catalog_def sess_partner_meta_def
        sess_partner_catalog_def called_def split: prod.splits sum.splits if_splits)

lemma supplement_related_tables_calls:
  "supplement_related_tables G s tables limit = (r, s') \<Longrightarrow> \<exists>rest. calls s' = calls s @ rest"
  by (auto simp: supplement_related_tables_def Let_def split: prod.splits if_splits
           dest: fetch_tables_by_name_calls)

lemma fallback_keyword_search_calls:
  assumes "fallback_keyword_search G s question limit = (r, s')"
  shows "\<exists>rest. calls s' = calls s @ [KeywordCall (question_keywords question) (limit * 15)] @ rest"
proof -
  obtain x s1 where k: "sess_keyword G s (question_keywords question) (limit * 15) = (x, s1)"
    by (cases "sess_keyword G s (question_keywords question) (limit * 15)")
  then have c1: "calls s1 = calls s @ [KeywordCall (question_keywords question) (limit * 15)]"
    by (auto simp: sess_keyword_def called_def split: prod.splits)
  from assms k have "get_all_tables G s1 limit = (r, s')
      \<or> (\<exists>tables. supplement_related_tables G s1 tables limit = (r, s'))"
    by (auto simp: fallback_keyword_search_def split: sum.splits if_splits)
  then obtain rest where "calls s' = calls s1 @ rest"
    using get_all_tables_calls supplement_related_tables_calls by blast
  with c1 show ?thesis by simp
qed

text \<open>The errors of the search tier after which \<open>link_schema\<close> goes on to the keyword tier.\<close>

definition falls_back :: "string \<Rightarrow> bool" where
  "falls_back error_msg =
     ((contains ''does not exist'' (py_lower error_msg)
        \<and> contains ''schema_search_service'' (py_lower error_msg))
      \<or> \<not> contains ''table_descriptions'' (py_lower error_msg))"

lemma link_schema_falls_back:
  assumes "\<not> is_blank question"
    and "gw_search G (world s) question (effective_limit limit * 10)
           = (SearchRaised error_msg, w)"
    and "falls_back error_msg"
  shows "link_schema G s question limit
           = fallback_keyword_search G
               (called s (SearchCall question (effective_limit limit * 10)) w)
               question (effective_limit limit)"
  using assms by (auto simp: link_schema_def sess_search_def falls_back_def Let_def)

section \<open>Claims about the schema linker\<close>

text \<open>
  Claim C3 (search errors and the keyword tier), as stated: every error of the search
  tier makes \<open>link_schema\<close> try the keyword tier. It fails: when the message of the
  error names the metadata table (and is not the message of a missing search service),
  \<open>link_schema\<close> warns that the table is missing and returns the empty result at once.
  Here the search fails with such a message, the result is empty, and the search call is
  the only call made.
\<close>

theorem search_error_counterexample:
  "\<not> is_blank ''average item price''
   \<and> gw_search no_metadata_gateway () ''average item price'' 10
       = (SearchRaised ''SQL compilation error: Object TABLE_DESCRIPTIONS does not exist.'', ())
   \<and> link_schema no_metadata_gateway fresh_session ''average item price'' 1
       = ([], \<lparr>world = (), calls = [SearchCall ''average item price'' 10]\<rparr>)"
  by code_simp

text \<open>
  Claim C3, amended. Let the search tier raise an error. If its message names both
  \<open>does not exist\<close> and \<open>schema_search_service\<close>, or does not name
  \<open>table_descriptions\<close> (all in any case), \<open>link_schema\<close> goes on to the keyword
  tier and returns what that tier returns: the call that follows the search call is the
  keyword query, and a query of the full catalogue, if there is one, comes after it.
  For every other error of the search tier (its message names \<open>table_descriptions\<close>
  and is not the message of a missing search service), \<open>link_schema\<close> returns the
  empty result, and the search call is the only call it makes.
\<close>

theorem search_error_keyword_tier_first:
  assumes "\<not> is_blank question"
    and "gw_search G (world s) question (effective_limit limit * 10)
           = (SearchRaised error_msg, w)"
  shows "if falls_back error_msg
         then link_schema G s question limit
                = fallback_keyword_search G
                    (called s (SearchCall question (effective_limit limit * 10)) w)
                    question (effective_limit limit)
              \<and> (\<exists>rest. calls (snd (link_schema G s question limit))
                     = calls s
                       @ [SearchCall question (effective_limit limit * 10),
                          KeywordCall (question_keywords question)
                            (effective_limit limit * 15)]
                       @ rest)
         else link_schema G s question limit
                = ([], called s (SearchCall question (effective_limit limit * 10)) w)
              \<and> calls (snd (link_schema G s question limit))
                  = calls s @ [SearchCall question (effective_limit limit * 10)]"
proof (cases "falls_back error_msg")
  case True
  let ?l = "effective_limit limit"
  let ?s1 = "called s (SearchCall question (?l * 10)) w"
  obtain r s' where f: "fallback_keyword_search G ?s1 question ?l = (r, s')"
    by (cases "fallback_keyword_search G ?s1 question ?l")
  from fallback_keyword_search_calls [OF f] obtain rest where
    "calls s' = calls ?s1 @ [KeywordCall (question_keywords question) (?l * 15)] @ rest"
    by blast
  moreover have l: "link_schema G s question limit
                      = fallback_keyword_search G ?s1 question ?l"
    using assms True by (rule link_schema_falls_back)
  ultimately have "\<exists>rest. calls (snd (link_schema G s question limit))
      = calls s @ [SearchCall question (?l * 10),
                   KeywordCall (question_keywords question) (?l * 15)] @ rest"
    using f by (simp add: called_def)
  with l True show ?thesis by simp
next
  case False
  with assms have "link_schema G s question limit
      = ([], called s (SearchCall question (effective_limit limit * 10)) w)"
    by (auto simp: link_schema_def sess_search_def falls_back_def Let_def)
  with False show ?thesis by (simp add: called_def)
qed

theorem search_error_keyword_tier_first_witness:
  "\<not> is_blank ''total sales''
   \<and> gw_search bare_gateway (world fresh_session) ''total sales'' (effective_limit 5 * 10)
        = (SearchRaised search_service_missing, ())
   \<and> falls_back search_service_missing
   \<and> calls (snd (link_schema bare_gateway fresh_session ''total sales'' 5))
        = [SearchCall ''total sales'' 50, KeywordCall [''sales''] 75, CatalogCall]
   \<and> gw_search no_metadata_gateway (world fresh_session) ''total sales'' (effective_limit 5 * 10)
        = (SearchRaised ''SQL compilation error: Object TABLE_DESCRIPTIONS does not exist.'', ())
   \<and> \<not> falls_back ''SQL compilation error: Object TABLE_DESCRIPTIONS does not exist.''
   \<and> link_schema no_metadata_gateway fresh_session ''total sales'' 5
        = ([], called fresh_session (SearchCall ''total sales'' (effective_limit 5 * 10)) ())
   \<and> calls (snd (link_schema no_metadata_gateway fresh_session ''total sales'' 5))
        = [SearchCall ''total sales'' 50]"
proof -
  let ?e = "''SQL compilation error: Object TABLE_DESCRIPTIONS does not exist.''"
  have h1: "\<not> is_blank ''total sales''" by code_simp
  have h2: "gw_search bare_gateway (world fresh_session) ''total sales''
              (effective_limit 5 * 10) = (SearchRaised search_service_missing, ())"
    by code_simp
  have h3: "falls_back search_service_missing" by code_simp
  have run: "calls (snd (link_schema bare_gateway fresh_session ''total sales'' 5))
        = [SearchCall ''total sales'' 50, KeywordCall [''sales''] 75, CatalogCall]"
    by code_simp
  have k2: "gw_search no_metadata_gateway (world fresh_session) ''total sales''
              (effective_limit 5 * 10) = (SearchRaised ?e, ())"
    by code_simp
  have k3: "\<not> falls_back ?e" by code_simp
  have c: "calls fresh_session @ [SearchCall ''total sales'' (effective_limit 5 * 10)]
             = [SearchCall ''total sales'' 50]" by code_simp
  note no = search_error_keyword_tier_first [OF h1 k2, unfolded if_not_P [OF k3]]
  have no1: "link_schema no_metadata_gateway fresh_session ''total sales'' 5
          = ([], called fresh_session (SearchCall ''total sales'' (effective_limit 5 * 10)) ())"
    using no by (rule conjunct1)
  have no2: "calls (snd (link_schema no_metadata_gateway fresh_session ''total sales'' 5))
            = [SearchCall ''total sales'' 50]"
    using conjunct2 [OF no] c by (rule trans)
  note yes = search_error_keyword_tier_first [OF h1 h2, unfolded if_P [OF h3]]
  have "\<exists>rest. calls (snd (link_schema bare_gateway fresh_session ''total sales'' 5))
      = calls fresh_session
        @ [SearchCall ''total sales'' (effective_limit 5 * 10),
           KeywordCall (question_keywords ''total sales'') (effective_limit 5 * 15)] @ rest"
    using yes by (rule conjunct2)
  with h1 h2 h3 run k2 k3 no1 no2 show ?thesis by blast
qed

text \<open>
  Claim C2 (dataset isolation) says that no tier returns \<open>SUPERSTORE_SALES\<close>. The
  search tier and the keyword tier filter it out (\<open>search_tables_props\<close>,
  \<open>keyword_tables_props\<close> below), but the full-catalogue tier does not: with no search
  service and no metadata, \<open>link_schema\<close> returns every table of the raw catalogue,
  \<open>SUPERSTORE_SALES\<close> among them.
\<close>

theorem full_catalog_tier_keeps_superstore_sales:
  "link_schema bare_gateway fresh_session ''total sales'' 5
     = ([\<lparr>table_name = ''ORDERS'',
          columns = [\<lparr>column_name = ''ORDER_ID'', description = [], data_type = ''TEXT'',
                      synonyms = []\<rparr>,
                     \<lparr>column_name = ''CUSTOMER_ID'', description = [], data_type = ''TEXT'',
                      synonyms = []\<rparr>],
          relevance_score = 0.1\<rparr>,
         \<lparr>table_name = ''SUPERSTORE_SALES'',
          columns = [\<lparr>column_name = ''ROW_ID'', description = [], data_type = ''NUMBER'',
                      synonyms = []\<rparr>],
          relevance_score = 0.1\<rparr>],
        \<lparr>world = (), calls = [SearchCall ''total sales'' 50, KeywordCall [''sales''] 75,
                               CatalogCall]\<rparr>)
   \<and> ''SUPERSTORE_SALES''
       \<in> set (map table_name (fst (link_schema bare_gateway fresh_session ''total sales'' 5)))"
  by code_simp

text \<open>
  Claim C10 (the limit does not bound the result). With \<open>limit = 1\<close>, the keyword tier
  finds \<open>ORDER_ITEMS\<close>, the result is cut to one table, and only then the partner
  \<open>ORDERS\<close> is fetched and appended: \<open>link_schema\<close> returns two tables.
\<close>

theorem supplementation_exceeds_limit:
  "link_schema olist_gateway fresh_session ''average item price'' 1
     = ([\<lparr>table_name = ''ORDER_ITEMS'',
          columns = [\<lparr>column_name = ''PRICE'', description = ''Item price'',
                      data_type = ''NUMBER'', synonyms = ''cost''\<rparr>],
          relevance_score = 0.5\<rparr>,
         \<lparr>table_name = ''ORDERS'',
          columns = [\<lparr>column_name = ''ORDER_ID'', description = ''Order identifier'',
                      data_type = ''TEXT'', synonyms = []\<rparr>],
          relevance_score = 0.4\<rparr>],
        \<lparr>world = (), calls = [SearchCall ''average item price'' 10,
                               KeywordCall [''item'', ''price''] 15,
                               PartnerMetaCall [''ORDERS'']]\<rparr>)
   \<and> int (length (fst (link_schema olist_gateway fresh_session ''average item price'' 1))) > 1"
  by code_simp

section \<open>Schema linker: grouping\<close>

lemma dict_update_keys: "fst ` set (dict_update k new f d) = insert k (fst ` set d)"
proof (induction d)
  case Nil
  then show ?case by simp
next
  case (Cons a d)
  then show ?case by (cases a) (auto simp: image_iff split: if_splits)
qed

lemma dict_update_inv:
  assumes "Q k (f new)" and "\<And>v. Q k v \<Longrightarrow> Q k (f v)" and "\<forall>(k', v) \<in> set d. Q k' v"
  shows "\<forall>(k', v) \<in> set (dict_update k new f d). Q k' v"
  using assms by (induction d) (auto split: if_splits)

lemma foldl_dict_keys:
  "fst ` set (foldl (\<lambda>d row. dict_update (key row) (new row) (f row) d) d0 rows)
     = key ` set rows \<union> fst ` set d0"
  by (induction rows arbitrary: d0) (auto simp: dict_update_keys)

lemma foldl_dict_inv:
  assumes new: "\<And>row. Q (key row) (f row (new row))"
    and upd: "\<And>row v. Q (key row) v \<Longrightarrow> Q (key row) (f row v)"
    and d0: "\<forall>(k, v) \<in> set d0. Q k v"
  shows "\<forall>(k, v) \<in> set (foldl (\<lambda>d row. dict_update (key row) (new row) (f row) d) d0 rows). Q k v"
  using d0
proof (induction rows arbitrary: d0)
  case Nil
  then show ?case by simp
next
  case (Cons row rows)
  have "\<forall>(k, v) \<in> set (dict_update (key row) (new row) (f row) d0). Q k v"
    using new [of row] upd [of row] Cons.prems by (rule dict_update_inv)
  from Cons.IH [OF this] show ?case by simp
qed

lemma columns_add_column [simp]: "columns (add_column col t) \<noteq> []"
  by (simp add: add_column_def)

lemma table_name_add_column [simp]: "table_name (add_column col t) = table_name t"
  by (simp add: add_column_def)

lemma relevance_score_add_column [simp]: "relevance_score (add_column col t) = relevance_score t"
  by (simp add: add_column_def)

lemma group_meta_rows_props:
  assumes "t \<in> set (group_meta_rows score rows)"
  shows "columns t \<noteq> [] \<and> relevance_score t = score"
proof -
  have "\<forall>(k, v) \<in> set (foldl (\<lambda>d row. dict_update (row_table_name row)
            \<lparr>table_name = row_table_name row, columns = [], relevance_score = score\<rparr>
            (add_column (meta_column row)) d) [] rows).
          columns v \<noteq> [] \<and> relevance_score v = score"
    by (rule foldl_dict_inv) simp_all
  with assms show ?thesis by (auto simp: group_meta_rows_def dict_values_def)
qed

lemma group_meta_rows_names:
  "table_name ` set (group_meta_rows score rows) = row_table_name ` set rows"
proof -
  let ?d = "foldl (\<lambda>d row. dict_update (row_table_name row)
            \<lparr>table_name = row_table_name row, columns = [], relevance_score = score\<rparr>
            (add_column (meta_column row)) d) [] rows"
  have inv: "\<forall>(k, v) \<in> set ?d. table_name v = k"
    by (rule foldl_dict_inv) simp_all
  have keys: "fst ` set ?d = row_table_name ` set rows"
    using foldl_dict_keys [of row_table_name _ "\<lambda>row. add_column (meta_column row)" "[]" rows]
    by simp
  from inv have "table_name ` snd ` set ?d = fst ` set ?d" by force
  with keys show ?thesis by (simp add: group_meta_rows_def dict_values_def)
qed

lemma group_catalog_rows_props:
  assumes "t \<in> set (group_catalog_rows score rows)"
  shows "columns t \<noteq> [] \<and> relevance_score t = score"
proof -
  have "\<forall>(k, v) \<in> set (foldl (\<lambda>d row. dict_update (cat_table_name row)
            \<lparr>table_name = cat_table_name row, columns = [], relevance_score = score\<rparr>
            (add_column (catalog_column row)) d) [] rows).
          columns v \<noteq> [] \<and> relevance_score v = score"
    by (rule foldl_dict_inv) simp_all
  with assms show ?thesis by (auto simp: group_catalog_rows_def dict_values_def)
qed

lemma group_catalog_rows_names:
  "table_name ` set (group_catalog_rows score rows) = cat_table_name ` set rows"
proof -
  let ?d = "foldl (\<lambda>d row. dict_update (cat_table_name row)
            \<lparr>table_name = cat_table_name row, columns = [], relevance_score = score\<rparr>
            (add_column (catalog_column row)) d) [] rows"
  have inv: "\<forall>(k, v) \<in> set ?d. table_name v = k"
    by (rule foldl_dict_inv) simp_all
  have keys: "fst ` set ?d = cat_table_name ` set rows"
    using foldl_dict_keys [of cat_table_name _ "\<lambda>row. add_column (catalog_column row)" "[]" rows]
    by simp
  from inv have "table_name ` snd ` set ?d = fst ` set ?d" by force
  with keys show ?thesis by (simp add: group_catalog_rows_def dict_values_def)
qed

lemma group_keyword_rows_props:
  assumes "(t, m) \<in> set (group_keyword_rows rows)"
  shows "columns t \<noteq> [] \<and> relevance_score t = 0.5"
proof -
  have "\<forall>(k, v) \<in> set (foldl (\<lambda>d row. dict_update (row_table_name row)
            (\<lparr>table_name = row_table_name row, columns = [], relevance_score = 0.5\<rparr>,
             row_match_count row)
            (\<lambda>(t, match_count). (add_column (meta_column row) t, match_count)) d) [] rows).
          columns (fst v) \<noteq> [] \<and> relevance_score (fst v) = 0.5"
    by (rule foldl_dict_inv) (simp_all add: case_prod_beta)
  with assms show ?thesis by (force simp: group_keyword_rows_def dict_values_def)
qed

lemma keyword_tables_props:
  assumes "t \<in> set (keyword_tables rows limit)"
  shows "columns t \<noteq> [] \<and> relevance_score t = 0.5 \<and> table_name t \<noteq> ''SUPERSTORE_SALES''"
proof -
  from assms have ne: "table_name t \<noteq> ''SUPERSTORE_SALES''"
    and "t \<in> set (take (nat limit)
           (map fst (sort_key (\<lambda>(t, match_count). - match_count) (group_keyword_rows rows))))"
    by (simp_all add: keyword_tables_def filter_dataset_mixing_def Let_def)
  then have "t \<in> fst ` set (group_keyword_rows rows)"
    by (auto dest!: in_set_takeD)
  then obtain m where "(t, m) \<in> set (group_keyword_rows rows)" by auto
  from group_keyword_rows_props [OF this] ne show ?thesis by simp
qed

lemma search_tables_props:
  assumes "t \<in> set (search_tables results limit)"
  shows "columns t \<noteq> [] \<and> table_name t \<noteq> ''SUPERSTORE_SALES''"
proof -
  let ?d = "foldl add_search_item [] results"
  have fn: "add_search_item = (\<lambda>d item. dict_update
        (get_or (item_table_name item) ''UNKNOWN'')
        \<lparr>st_table_name = get_or (item_table_name item) ''UNKNOWN'', st_columns = [],
          st_relevance_scores = []\<rparr>
        (\<lambda>t. t\<lparr>st_columns := st_columns t @ [item_column item],
                st_relevance_scores := st_relevance_scores t @ [get_or (item_score item) 0]\<rparr>)
        d)"
    by (intro ext) (simp add: add_search_item_def Let_def)
  have inv: "\<forall>(k, v) \<in> set ?d. st_columns v \<noteq> []"
    unfolding fn by (rule foldl_dict_inv) simp_all
  from assms have ne: "table_name t \<noteq> ''SUPERSTORE_SALES''"
    and "t \<in> set (map average_score (dict_values ?d))"
    by (auto simp: search_tables_def filter_dataset_mixing_def Let_def dest!: in_set_takeD)
  then obtain v where "v \<in> snd ` set ?d" and "t = average_score v"
    by (auto simp: dict_values_def)
  with inv ne show ?thesis by (auto simp: average_score_def)
qed

lemma get_all_tables_props:
  assumes "t \<in> set (fst (get_all_tables G s limit))"
  shows "columns t \<noteq> []"
  using assms
  by (auto simp: get_all_tables_def split: prod.splits sum.splits
      dest!: in_set_takeD group_catalog_rows_props)

lemma fetch_tables_by_name_props:
  assumes "t \<in> set (fst (fetch_tables_by_name G s names))"
  shows "columns t \<noteq> [] \<and> (relevance_score t = 0.4 \<or> relevance_score t = 0.3)"
  using assms
  by (auto simp: fetch_tables_by_name_def fetch_from_catalog_def
      split: prod.splits sum.splits if_splits
      dest!: group_catalog_rows_props group_meta_rows_props)

text \<open>
  The metadata of a partner table can be fetched: the metadata store answers the query
  for the needed tables with rows, one of them of the partner; or it answers with an
  error or with no row, and the raw catalogue answers with a row of the partner.
\<close>

definition partner_in_catalog ::
  "('w, 'r) gateway \<Rightarrow> 'w session \<Rightarrow> string list \<Rightarrow> string \<Rightarrow> bool" where
  "partner_in_catalog G s names partner =
     (case sess_partner_catalog G s names of
        (Inr rows, s1) \<Rightarrow> partner \<in> cat_table_name ` set rows
      | (Inl e, s1) \<Rightarrow> False)"

definition partner_fetchable ::
  "('w, 'r) gateway \<Rightarrow> 'w session \<Rightarrow> string list \<Rightarrow> string \<Rightarrow> bool" where
  "partner_fetchable G s names partner =
     (case sess_partner_meta G s names of
        (Inr rows, s1) \<Rightarrow>
          (if rows \<noteq> [] then partner \<in> row_table_name ` set rows
           else partner_in_catalog G s1 names partner)
      | (Inl e, s1) \<Rightarrow> partner_in_catalog G s1 names partner)"

lemma fetch_tables_by_name_partner:
  assumes "partner_fetchable G s names partner" and "names \<noteq> []"
  shows "partner \<in> table_name ` set (fst (fetch_tables_by_name G s names))"
  using assms
  by (auto simp: partner_fetchable_def partner_in_catalog_def fetch_tables_by_name_def
        fetch_from_catalog_def group_meta_rows_names group_catalog_rows_names
      split: prod.splits sum.splits if_splits)

lemma supplement_related_tables_props:
  assumes "t \<in> set (fst (supplement_related_tables G s tables limit))"
  shows "t \<in> set tables \<or> t \<in> set (fst (fetch_tables_by_name G s (needed_partners tables)))"
  using assms
  by (auto simp: supplement_related_tables_def Let_def split: prod.splits if_splits)

lemma fallback_keyword_search_columns:
  assumes "t \<in> set (fst (fallback_keyword_search G s question limit))"
  shows "columns t \<noteq> []"
proof -
  obtain x s1 where k: "sess_keyword G s (question_keywords question) (limit * 15) = (x, s1)"
    by (cases "sess_keyword G s (question_keywords question) (limit * 15)")
  show ?thesis
  proof (cases "\<exists>rows. x = Inr rows \<and> rows \<noteq> []")
    case True
    then obtain rows where x: "x = Inr rows" "rows \<noteq> []" by blast
    with assms k have "t \<in> set (fst (supplement_related_tables G s1 (keyword_tables rows limit) limit))"
      by (simp add: fallback_keyword_search_def)
    from supplement_related_tables_props [OF this] show ?thesis
      using keyword_tables_props fetch_tables_by_name_props by blast
  next
    case False
    with assms k have "t \<in> set (fst (get_all_tables G s1 limit))"
      by (auto simp: fallback_keyword_search_def split: sum.splits if_splits)
    then show ?thesis by (rule get_all_tables_props)
  qed
qed

text \<open>
  Claim C9 (columns are never empty). Whatever the question, the limit and the answers
  of the outside world, and whichever tier produces the result, every table context
  returned by \<open>link_schema\<close> has at least one column.
\<close>

theorem link_schema_columns_nonempty:
  "\<forall>t \<in> set (fst (link_schema G s question limit)). columns t \<noteq> []"
proof
  fix t assume t: "t \<in> set (fst (link_schema G s question limit))"
  then have nb: "\<not> is_blank question" by (auto simp: link_schema_def)
  obtain x s1 where sr: "sess_search G s question (effective_limit limit * 10) = (x, s1)"
    by (cases "sess_search G s question (effective_limit limit * 10)")
  show "columns t \<noteq> []"
  proof (cases x)
    case (SearchResults results)
    with t nb sr have "t \<in> set (search_tables results (effective_limit limit))"
      by (auto simp: link_schema_def Let_def split: if_splits)
    then show ?thesis using search_tables_props by blast
  next
    case (SearchRaised e)
    with t nb sr have
      "t \<in> set (fst (fallback_keyword_search G s1 question (effective_limit limit)))"
      by (auto simp: link_schema_def Let_def split: if_splits)
    then show ?thesis by (rule fallback_keyword_search_columns)
  qed
qed

theorem link_schema_columns_nonempty_witness:
  "fst (link_schema olist_gateway fresh_session ''average item price'' 1) \<noteq> []
   \<and> list_all (\<lambda>t. columns t \<noteq> [])
        (fst (link_schema olist_gateway fresh_session ''average item price'' 1))
   \<and> fst (link_schema bare_gateway fresh_session ''total sales'' 5) \<noteq> []
   \<and> list_all (\<lambda>t. columns t \<noteq> [])
        (fst (link_schema bare_gateway fresh_session ''total sales'' 5))"
proof -
  have "fst (link_schema olist_gateway fresh_session ''average item price'' 1) \<noteq> []"
    by code_simp
  moreover have "fst (link_schema bare_gateway fresh_session ''total sales'' 5) \<noteq> []"
    by code_simp
  ultimately show ?thesis
    using link_schema_columns_nonempty [of olist_gateway fresh_session "''average item price''" 1]
      link_schema_columns_nonempty [of bare_gateway fresh_session "''total sales''" 5]
    by (simp add: list_all_iff)
qed

lemma needed_partners_at_most_one: "length (needed_partners tables) \<le> 1"
proof -
  let ?names = "table_name ` set tables"
  have sub: "set (needed_partners tables)
      \<subseteq> (if ''ORDERS'' \<in> ?names then {''CUSTOMERS''} else {''ORDERS''})"
  proof
    fix x assume "x \<in> set (needed_partners tables)"
    then obtain t where t: "t \<in> set tables" "x \<in> set (fk_partners (table_name t))"
      "x \<notin> ?names"
      by (auto simp: needed_partners_def)
    show "x \<in> (if ''ORDERS'' \<in> ?names then {''CUSTOMERS''} else {''ORDERS''})"
    proof (cases "table_name t = ''ORDERS''")
      case True
      from t(1) have "table_name t \<in> ?names" by (rule imageI)
      with True have "''ORDERS'' \<in> ?names" by simp
      moreover from True t(2) have "x = ''CUSTOMERS''" by (simp add: fk_partners_def)
      ultimately show ?thesis by simp
    next
      case False
      with t have x: "x = ''ORDERS''" by (auto simp: fk_partners_def split: if_splits)
      with t have "''ORDERS'' \<notin> ?names" by simp
      with x show ?thesis by simp
    qed
  qed
  have "card (set (needed_partners tables))
      \<le> card (if ''ORDERS'' \<in> ?names then {''CUSTOMERS''} else {''ORDERS''})"
    by (rule card_mono [OF _ sub]) simp
  also have "\<dots> = 1" by simp
  finally have "card (set (needed_partners tables)) \<le> 1" .
  moreover have "distinct (needed_partners tables)"
    by (simp add: needed_partners_def)
  ultimately show ?thesis by (simp add: distinct_card)
qed

lemma needed_partners_member:
  assumes "t \<in> set tables" and "partner \<in> set (fk_partners (table_name t))"
    and "partner \<notin> table_name ` set tables"
  shows "partner \<in> set (needed_partners tables)"
  using assms by (auto simp: needed_partners_def)

text \<open>
  The metadata store answers the query for the needed tables with at least one row: then
  \<open>_fetch_tables_by_name\<close> takes the tables from it, and otherwise from the raw
  catalogue.
\<close>

definition metadata_store_answers ::
  "('w, 'r) gateway \<Rightarrow> 'w session \<Rightarrow> string list \<Rightarrow> bool" where
  "metadata_store_answers G s names =
     (case sess_partner_meta G s names of
        (Inr rows, s1) \<Rightarrow> rows \<noteq> []
      | (Inl e, s1) \<Rightarrow> False)"

lemma fetch_tables_by_name_score:
  assumes "t \<in> set (fst (fetch_tables_by_name G s names))"
  shows "relevance_score t = (if metadata_store_answers G s names then 0.4 else 0.3)"
  using assms
  by (auto simp: fetch_tables_by_name_def fetch_from_catalog_def metadata_store_answers_def
      split: prod.splits sum.splits if_splits
      dest!: group_catalog_rows_props group_meta_rows_props)

text \<open>
  Claim C5 (foreign-key supplementation). Let the search fail with an error after which
  \<open>link_schema\<close> falls back, and let the keyword query return rows. If the tables of
  the keyword tier (grouped, sorted, truncated and filtered) hold a table whose partner
  in the static foreign-key map is not among them, and the metadata of the partner can
  be fetched, then the result of \<open>link_schema\<close> is the tables of the keyword tier
  followed by the fetched tables, and it holds the partner with a relevance score that
  is 0.4 when the metadata store answered with rows and 0.3 when the partner came from
  the raw catalogue; either way the score is strictly below the score of every table of
  the keyword tier.
\<close>

theorem fk_partner_supplemented:
  assumes nb: "\<not> is_blank question"
    and search: "gw_search G (world s) question (effective_limit limit * 10)
                   = (SearchRaised error_msg, w)"
    and fb: "falls_back error_msg"
    and kw: "sess_keyword G (called s (SearchCall question (effective_limit limit * 10)) w)
               (question_keywords question) (effective_limit limit * 15) = (Inr rows, s2)"
    and rows: "rows \<noteq> []"
    and t: "t \<in> set (keyword_tables rows (effective_limit limit))"
    and partner: "partner \<in> set (fk_partners (table_name t))"
    and absent: "partner \<notin> table_name ` set (keyword_tables rows (effective_limit limit))"
    and fetch: "partner_fetchable G s2
                  (needed_partners (keyword_tables rows (effective_limit limit))) partner"
  shows "fst (link_schema G s question limit)
           = keyword_tables rows (effective_limit limit)
             @ fst (fetch_tables_by_name G s2
                      (needed_partners (keyword_tables rows (effective_limit limit))))
       \<and> (\<exists>p \<in> set (fst (link_schema G s question limit)).
            table_name p = partner
          \<and> relevance_score p
              = (if metadata_store_answers G s2
                      (needed_partners (keyword_tables rows (effective_limit limit)))
                 then 0.4 else 0.3)
          \<and> (relevance_score p = 0.4 \<or> relevance_score p = 0.3)
          \<and> (\<forall>d \<in> set (keyword_tables rows (effective_limit limit)).
                relevance_score p < relevance_score d))"
proof -
  let ?l = "effective_limit limit"
  let ?tables = "keyword_tables rows ?l"
  let ?needed = "needed_partners ?tables"
  let ?fetched = "fst (fetch_tables_by_name G s2 ?needed)"
  from needed_partners_member [OF t partner absent] have ne: "?needed \<noteq> []" by auto
  have "link_schema G s question limit
          = fallback_keyword_search G (called s (SearchCall question (?l * 10)) w) question ?l"
    using nb search fb by (rule link_schema_falls_back)
  also have "\<dots> = supplement_related_tables G s2 ?tables ?l"
    using kw rows by (simp add: fallback_keyword_search_def)
  finally have res: "fst (link_schema G s question limit) = ?tables @ ?fetched"
    using ne by (simp add: supplement_related_tables_def Let_def split: prod.splits)
  from fetch_tables_by_name_partner [OF fetch ne] obtain p where
    p: "p \<in> set ?fetched" "table_name p = partner" by auto
  from fetch_tables_by_name_props [OF p(1)]
  have score: "relevance_score p = 0.4 \<or> relevance_score p = 0.3" by simp
  from fetch_tables_by_name_score [OF p(1)]
  have source: "relevance_score p = (if metadata_store_answers G s2 ?needed then 0.4 else 0.3)" .
  have "\<forall>d \<in> set ?tables. relevance_score p < relevance_score d"
  proof
    fix d assume "d \<in> set ?tables"
    from keyword_tables_props [OF this] have "relevance_score d = 0.5" by simp
    with score show "relevance_score p < relevance_score d" by auto
  qed
  moreover from p(1) res have "p \<in> set (fst (link_schema G s question limit))" by simp
  ultimately show ?thesis using p(2) score source res by blast
qed

theorem fk_partner_supplemented_witness:
  "\<not> is_blank ''average item price''
   \<and> gw_search olist_gateway (world fresh_session) ''average item price'' (effective_limit 1 * 10)
       = (SearchRaised search_service_missing, ())
   \<and> falls_back search_service_missing
   \<and> keyword_tables [\<lparr>row_table_name = ''ORDER_ITEMS'', row_column_name = ''PRICE'',
                        row_description = Some ''Item price'', row_data_type = Some ''NUMBER'',
                        row_synonyms = Some ''cost'', row_match_count = 1\<rparr>] (effective_limit 1)
       = [\<lparr>table_name = ''ORDER_ITEMS'',
            columns = [\<lparr>column_name = ''PRICE'', description = ''Item price'',
                        data_type = ''NUMBER'', synonyms = ''cost''\<rparr>],
            relevance_score = 0.5\<rparr>]
   \<and> ''ORDERS'' \<in> set (fk_partners ''ORDER_ITEMS'')
   \<and> metadata_store_answers olist_gateway
        \<lparr>world = (), calls = [SearchCall ''average item price'' 10,
                               KeywordCall [''item'', ''price''] 15]\<rparr> [''ORDERS'']
   \<and> (\<exists>p \<in> set (fst (link_schema olist_gateway fresh_session ''average item price'' 1)).
          table_name p = ''ORDERS'' \<and> relevance_score p = 0.4 \<and> relevance_score p < 0.5)
   \<and> \<not> metadata_store_answers catalog_only_gateway
        \<lparr>world = (), calls = [SearchCall ''average item price'' 10,
                               KeywordCall [''item'', ''price''] 15]\<rparr> [''ORDERS'']
   \<and> (\<exists>p \<in> set (fst (link_schema catalog_only_gateway fresh_session
                          ''average item price'' 1)).
          table_name p = ''ORDERS'' \<and> relevance_score p = 0.3 \<and> relevance_score p < 0.5)"
proof -
  let ?q = "''average item price''"
  let ?rows = "[\<lparr>row_table_name = ''ORDER_ITEMS'', row_column_name = ''PRICE'',
                  row_description = Some ''Item price'', row_data_type = Some ''NUMBER'',
                  row_synonyms = Some ''cost'', row_match_count = 1\<rparr>]"
  let ?t = "\<lparr>table_name = ''ORDER_ITEMS'',
             columns = [\<lparr>column_name = ''PRICE'', description = ''Item price'',
                         data_type = ''NUMBER'', synonyms = ''cost''\<rparr>],
             relevance_score = 0.5\<rparr>"
  let ?s2 = "\<lparr>world = (), calls = [SearchCall ?q 10, KeywordCall [''item'', ''price''] 15]\<rparr>"
  have h1: "\<not> is_blank ?q" by code_simp
  have h2: "gw_search olist_gateway (world fresh_session) ?q (effective_limit 1 * 10)
              = (SearchRaised search_service_missing, ())" by code_simp
  have h3: "falls_back search_service_missing" by code_simp
  have h4: "sess_keyword olist_gateway
              (called fresh_session (SearchCall ?q (effective_limit 1 * 10)) ())
              (question_keywords ?q) (effective_limit 1 * 15) = (Inr ?rows, ?s2)"
    by code_simp
  have h5: "?rows \<noteq> []" by simp
  have kt: "keyword_tables ?rows (effective_limit 1) = [?t]" by code_simp
  have h6: "?t \<in> set (keyword_tables ?rows (effective_limit 1))" by (simp add: kt)
  have h7: "''ORDERS'' \<in> set (fk_partners (table_name ?t))" by (simp add: fk_partners_def)
  have h8: "''ORDERS'' \<notin> table_name ` set (keyword_tables ?rows (effective_limit 1))"
    by (simp add: kt)
  have nd: "needed_partners (keyword_tables ?rows (effective_limit 1)) = [''ORDERS'']"
    by code_simp
  have h9: "partner_fetchable olist_gateway ?s2
              (needed_partners (keyword_tables ?rows (effective_limit 1))) ''ORDERS''"
    by code_simp
  have m: "metadata_store_answers olist_gateway ?s2 [''ORDERS'']" by code_simp
  from fk_partner_supplemented [OF h1 h2 h3 h4 h5 h6 h7 h8 h9]
  have "\<exists>p \<in> set (fst (link_schema olist_gateway fresh_session ?q 1)).
          table_name p = ''ORDERS''
          \<and> relevance_score p
              = (if metadata_store_answers olist_gateway ?s2
                      (needed_partners (keyword_tables ?rows (effective_limit 1)))
                 then 0.4 else 0.3)"
    by blast
  then have a: "\<exists>p \<in> set (fst (link_schema olist_gateway fresh_session ?q 1)).
          table_name p = ''ORDERS'' \<and> relevance_score p = 0.4 \<and> relevance_score p < 0.5"
    unfolding nd using m by auto
  have g2: "gw_search catalog_only_gateway (world fresh_session) ?q (effective_limit 1 * 10)
              = (SearchRaised search_service_missing, ())" by code_simp
  have g4: "sess_keyword catalog_only_gateway
              (called fresh_session (SearchCall ?q (effective_limit 1 * 10)) ())
              (question_keywords ?q) (effective_limit 1 * 15) = (Inr ?rows, ?s2)"
    by code_simp
  have g9: "partner_fetchable catalog_only_gateway ?s2
              (needed_partners (keyword_tables ?rows (effective_limit 1))) ''ORDERS''"
    by code_simp
  have n: "\<not> metadata_store_answers catalog_only_gateway ?s2 [''ORDERS'']" by code_simp
  from fk_partner_supplemented [OF h1 g2 h3 g4 h5 h6 h7 h8 g9]
  have "\<exists>p \<in> set (fst (link_schema catalog_only_gateway fresh_session ?q 1)).
          table_name p = ''ORDERS''
          \<and> relevance_score p
              = (if metadata_store_answers catalog_only_gateway ?s2
                      (needed_partners (keyword_tables ?rows (effective_limit 1)))
                 then 0.4 else 0.3)"
    by blast
  then have b: "\<exists>p \<in> set (fst (link_schema catalog_only_gateway fresh_session ?q 1)).
          table_name p = ''ORDERS'' \<and> relevance_score p = 0.3 \<and> relevance_score p < 0.5"
    unfolding nd using n by auto
  from h1 h2 h3 kt h7 m a n b show ?thesis by simp
qed

section \<open>Extraction of a fenced statement\<close>

lemma strip_sandwich:
  assumes "\<forall>c \<in> set pre. py_isspace c" and "\<forall>c \<in> set post. py_isspace c"
    and "x \<noteq> []" and "\<not> py_isspace (hd x)" and "\<not> py_isspace (last x)"
  shows "strip (pre @ x @ post) = x"
proof -
  from assms(3,4) have l: "dropWhile py_isspace (x @ post) = x @ post"
    by (cases x) auto
  from assms(3,5) have r: "dropWhile py_isspace (rev x) = rev x"
    by (cases x rule: rev_cases) auto
  have "lstrip (pre @ x @ post) = x @ post"
    using assms(1) l by (simp add: lstrip_def dropWhile_append2)
  moreover have "dropWhile py_isspace (rev post @ rev x) = dropWhile py_isspace (rev x)"
    using assms(2) by (intro dropWhile_append2) simp
  then have "rstrip (x @ post) = x"
    using r by (simp add: rstrip_def)
  ultimately show ?thesis by (simp add: strip_def)
qed

lemma lazy_group_closes:
  "starts_with fence (dropWhile py_isspace u) \<Longrightarrow> lazy_group u = Some []"
  by (cases u) auto

lemma lazy_group_ws_fence:
  assumes "\<forall>c \<in> set ws. py_isspace c"
  shows "lazy_group (ws @ fence @ rest) = Some []"
proof (rule lazy_group_closes)
  have "dropWhile py_isspace (ws @ fence @ rest) = dropWhile py_isspace (fence @ rest)"
    using assms by (simp add: dropWhile_append2)
  also have "\<dots> = fence @ rest" by (simp add: fence_def py_isspace_def)
  finally show "starts_with fence (dropWhile py_isspace (ws @ fence @ rest))"
    by (simp add: fence_def)
qed

lemma lazy_group_step:
  assumes "\<not> py_isspace c" and "c \<noteq> CHR 0x60"
  shows "lazy_group (c # u) = map_option (Cons c) (lazy_group u)"
  using assms by (simp add: fence_def)

lemma lazy_group_select_1:
  assumes "\<forall>c \<in> set ws. py_isspace c"
  shows "lazy_group (''SELECT 1'' @ ws @ fence @ rest) = Some ''SELECT 1''"
    and "lazy_group (''SELECT 1;'' @ ws @ fence @ rest) = Some ''SELECT 1;''"
proof -
  have sp: "lazy_group (CHR '' '' # CHR ''1'' # u) = map_option (Cons CHR '' '') (lazy_group (CHR ''1'' # u))"
    for u by (simp add: fence_def py_isspace_def)
  show "lazy_group (''SELECT 1'' @ ws @ fence @ rest) = Some ''SELECT 1''"
    by (simp add: lazy_group_step sp py_isspace_def lazy_group_ws_fence [OF assms] del: lazy_group.simps)
  show "lazy_group (''SELECT 1;'' @ ws @ fence @ rest) = Some ''SELECT 1;''"
    by (simp add: lazy_group_step sp py_isspace_def lazy_group_ws_fence [OF assms] del: lazy_group.simps)
qed

lemma fence_body_select_1:
  assumes ws1: "\<forall>c \<in> set ws1. py_isspace c" and ws2: "\<forall>c \<in> set ws2. py_isspace c"
    and b: "b = ''SELECT 1'' \<or> b = ''SELECT 1;''"
  shows "fence_body (ws1 @ b @ ws2 @ fence @ rest) = Some b"
proof -
  let ?u = "ws1 @ b @ ws2 @ fence @ rest"
  from b have lg: "lazy_group (b @ ws2 @ fence @ rest) = Some b"
    using lazy_group_select_1 [OF ws2] by auto
  from b have "takeWhile py_isspace (b @ ws2 @ fence @ rest) = []"
    by (auto simp: py_isspace_def)
  with ws1 have tw: "takeWhile py_isspace ?u = ws1"
    by (simp add: takeWhile_append2)
  show ?thesis
  proof (cases ws1)
    case Nil
    with lg tw show ?thesis by (simp add: fence_body_def)
  next
    case (Cons c cs)
    then have "length ws1 = Suc (length cs)" by simp
    moreover have "drop (length ws1) ?u = b @ ws2 @ fence @ rest" by simp
    ultimately show ?thesis using lg tw
      by (simp add: fence_body_def del: drop_append)
  qed
qed

lemma ci_sql_prefix:
  assumes "py_lower lang = ''sql''"
  shows "ci_starts_with ''sql'' (lang @ u)" and "drop 3 (lang @ u) = u"
proof -
  from assms obtain x y z where l: "lang = [x, y, z]"
    by (auto simp: py_lower_def map_eq_Cons_conv)
  have s: "py_lower_char CHR ''s'' = CHR ''s''" "py_lower_char CHR ''q'' = CHR ''q''"
    "py_lower_char CHR ''l'' = CHR ''l''" by code_simp+
  from assms l show "ci_starts_with ''sql'' (lang @ u)" by (simp add: py_lower_def s)
  from l show "drop 3 (lang @ u) = u" by simp
qed

lemma search_fence_select_1:
  assumes ws1: "\<forall>c \<in> set ws1. py_isspace c" and ws2: "\<forall>c \<in> set ws2. py_isspace c"
    and lang: "lang = [] \<or> py_lower lang = ''sql''"
    and b: "b = ''SELECT 1'' \<or> b = ''SELECT 1;''"
  shows "search_fence (fence @ lang @ ws1 @ b @ ws2 @ fence) = Some b"
proof -
  let ?u = "ws1 @ b @ ws2 @ fence"
  have fb: "fence_body ?u = Some b"
    using fence_body_select_1 [OF ws1 ws2 b, of "[]"] by simp
  have st: "starts_with fence (fence @ lang @ ?u)" by (simp add: fence_def)
  have dr: "drop 3 (fence @ lang @ ?u) = lang @ ?u" by (simp add: fence_def)
  have "fence_at (fence @ lang @ ?u) = Some b"
  proof (cases "lang = []")
    case True
    have "\<not> ci_starts_with ''sql'' ?u"
    proof (cases ws1)
      case Nil
      have "py_lower_char CHR ''S'' = CHR ''s''" "py_lower_char CHR ''E'' \<noteq> py_lower_char CHR ''q''"
        "py_lower_char CHR ''s'' = CHR ''s''" by code_simp+
      with Nil b show ?thesis by auto
    next
      case (Cons c cs)
      with ws1 have "py_isspace c" by simp
      moreover have "\<not> py_isspace CHR ''s''" "\<not> py_isspace CHR ''S''"
        by (simp_all add: py_isspace_def)
      moreover have "py_lower_char CHR ''s'' = CHR ''s''" by code_simp
      moreover have "py_lower_char c = CHR ''s'' \<Longrightarrow> c = CHR ''s'' \<or> c = CHR ''S''"
      proof -
        assume a: "py_lower_char c = CHR ''s''"
        show ?thesis
        proof (cases "py_lower_char c = c")
          case True with a show ?thesis by simp
        next
          case False
          then have "char_of (of_char c + 32 :: nat) = CHR ''s''"
            using a by (auto simp: py_lower_char_def Let_def split: if_splits)
          then have "of_char (char_of (of_char c + 32 :: nat)) = (of_char CHR ''s'' :: nat)" by simp
          moreover have "(of_char c :: nat) < 256" by simp
          moreover from False have "(of_char c :: nat) \<le> 222"
            by (auto simp: py_lower_char_def Let_def split: if_splits)
          ultimately have "(of_char c :: nat) = 83" by (simp add: of_char_of)
          then have "c = char_of (83 :: nat)" by (metis char_of_char)
          also have "\<dots> = CHR ''S''" by code_simp
          finally show ?thesis by simp
        qed
      qed
      ultimately show ?thesis using Cons by auto
    qed
    with True fb st dr show ?thesis by (simp add: fence_at_def Let_def)
  next
    case False
    with lang have l: "py_lower lang = ''sql''" by simp
    from ci_sql_prefix [OF l, of ?u] fb st dr show ?thesis
      by (simp add: fence_at_def Let_def)
  qed
  moreover obtain c cs where "fence @ lang @ ?u = c # cs" by (auto simp: fence_def)
  ultimately show ?thesis by simp
qed



section \<open>Cleaning\<close>

lemma starts_with_iff: "starts_with p s \<longleftrightarrow> (\<exists>v. s = p @ v)"
  by (induction p arbitrary: s) (auto split: list.splits)

lemma contains_iff: "contains p s \<longleftrightarrow> (\<exists>u v. s = u @ p @ v)"
proof (induction s)
  case Nil
  then show ?case by auto
next
  case (Cons c cs)
  show ?case
  proof
    assume "contains p (c # cs)"
    then consider "starts_with p (c # cs)" | "contains p cs" by auto
    then show "\<exists>u v. c # cs = u @ p @ v"
    proof cases
      case 1
      then obtain v where "c # cs = p @ v" by (auto simp: starts_with_iff)
      then have "c # cs = [] @ p @ v" by simp
      then show ?thesis by blast
    next
      case 2
      with Cons obtain u v where "cs = u @ p @ v" by auto
      then have "c # cs = (c # u) @ p @ v" by simp
      then show ?thesis by blast
    qed
  next
    assume "\<exists>u v. c # cs = u @ p @ v"
    then obtain u v where e: "c # cs = u @ p @ v" by blast
    show "contains p (c # cs)"
    proof (cases u)
      case Nil
      with e have "starts_with p (c # cs)" by (auto simp: starts_with_iff)
      then show ?thesis by simp
    next
      case (Cons a u')
      with e have "cs = u' @ p @ v" by simp
      with Cons.IH have "contains p cs" by blast
      then show ?thesis by simp
    qed
  qed
qed

lemma contains_substring: "contains p r \<Longrightarrow> contains p (u @ r @ v)"
proof -
  assume "contains p r"
  then obtain a b where "r = a @ p @ b" by (auto simp: contains_iff)
  then have "u @ r @ v = (u @ a) @ p @ (b @ v)" by simp
  then show ?thesis unfolding contains_iff by blast
qed

lemma contains_dropWhile: "contains p (dropWhile P s) \<Longrightarrow> contains p s"
  using contains_substring [of p "dropWhile P s" "takeWhile P s" "[]"] by simp

lemma contains_rev_dropWhile_rev: "contains p (rev (dropWhile P (rev s))) \<Longrightarrow> contains p s"
proof -
  assume a: "contains p (rev (dropWhile P (rev s)))"
  have "s = rev (dropWhile P (rev s)) @ rev (takeWhile P (rev s))"
    by (metis rev_append rev_rev_ident takeWhile_dropWhile_id)
  with contains_substring [OF a, of "[]" "rev (takeWhile P (rev s))"] show ?thesis by simp
qed

lemma contains_strip: "contains p (strip s) \<Longrightarrow> contains p s"
  unfolding strip_def rstrip_def lstrip_def
  by (blast dest: contains_rev_dropWhile_rev contains_dropWhile)

lemma contains_rstrip_chars: "contains p (rstrip_chars chars s) \<Longrightarrow> contains p s"
  unfolding rstrip_chars_def by (rule contains_rev_dropWhile_rev)

definition backtick :: char where
  "backtick = CHR 0x60"

lemma fence_backticks: "fence = [backtick, backtick, backtick]"
  by (simp add: fence_def backtick_def)

lemma remove_fences_head:
  "starts_with [backtick] (remove_fences s) \<Longrightarrow> starts_with [backtick] s"
  by (induction s rule: remove_fences.induct) (auto simp: fence_backticks split: if_splits list.splits)

lemma remove_fences_head2:
  "starts_with [backtick, backtick] (remove_fences s) \<Longrightarrow> starts_with [backtick, backtick] s"
proof (induction s rule: remove_fences.induct)
  case 1
  then show ?case by simp
next
  case (2 c cs)
  show ?case
  proof (cases "starts_with fence (c # cs)")
    case True
    then show ?thesis by (auto simp: fence_backticks split: list.splits)
  next
    case False
    with "2.prems" have "c = backtick" and "starts_with [backtick] (remove_fences cs)"
      by (auto split: list.splits)
    with remove_fences_head [of cs] show ?thesis by (auto split: list.splits)
  qed
qed

lemma remove_fences_no_fence: "\<not> contains fence (remove_fences s)"
proof (induction s rule: remove_fences.induct)
  case 1
  then show ?case by (simp add: fence_def)
next
  case (2 c cs)
  show ?case
  proof (cases "starts_with fence (c # cs)")
    case True
    with 2 show ?thesis by simp
  next
    case False
    have "\<not> starts_with fence (c # remove_fences cs)"
    proof
      assume "starts_with fence (c # remove_fences cs)"
      then have "c = backtick" and "starts_with [backtick, backtick] (remove_fences cs)"
        by (auto simp: fence_backticks split: list.splits)
      with remove_fences_head2 [of cs] have "starts_with fence (c # cs)"
        by (auto simp: fence_backticks split: list.splits)
      with False show False by simp
    qed
    with False 2 show ?thesis by simp
  qed
qed


lemma collapse_hspace_starts:
  assumes "\<forall>c \<in> set p. \<not> is_hspace c"
  shows "starts_with p (collapse_hspace s) \<Longrightarrow> starts_with p s"
  using assms
proof (induction p arbitrary: s)
  case Nil
  then show ?case by simp
next
  case (Cons a p)
  show ?case
  proof (cases s)
    case Nil
    with Cons.prems show ?thesis by simp
  next
    case (Cons c cs)
    show ?thesis
    proof (cases "is_hspace c")
      case True
      with Cons Cons.prems show ?thesis by (auto simp: is_hspace_def)
    next
      case False
      with Cons Cons.prems have "a = c" and "starts_with p (collapse_hspace cs)" by auto
      with Cons.IH [of cs] Cons.prems(2) Cons show ?thesis by simp
    qed
  qed
qed

lemma collapse_hspace_contains:
  assumes "p \<noteq> []" and "\<forall>c \<in> set p. \<not> is_hspace c"
  shows "contains p (collapse_hspace s) \<Longrightarrow> contains p s"
proof (induction s rule: collapse_hspace.induct)
  case 1
  with assms(1) show ?case by simp
next
  case (2 c cs)
  show ?case
  proof (cases "is_hspace c")
    case True
    let ?x = "collapse_hspace (dropWhile is_hspace cs)"
    from assms obtain a p' where p: "p = a # p'" "\<not> is_hspace a" by (cases p) auto
    then have "\<not> starts_with p (CHR '' '' # ?x)" by (auto simp: is_hspace_def)
    with "2.prems" True have "contains p ?x" by simp
    with "2.IH"(1) True have "contains p (dropWhile is_hspace cs)" by simp
    then have "contains p cs" by (rule contains_dropWhile)
    then show ?thesis by simp
  next
    case False
    with "2.prems" consider "starts_with p (collapse_hspace (c # cs))"
      | "contains p (collapse_hspace cs)" by auto
    then show ?thesis
    proof cases
      case 1
      with collapse_hspace_starts [OF assms(2)] have "starts_with p (c # cs)" by blast
      then show ?thesis by simp
    next
      case 2
      with "2.IH"(2) False show ?thesis by simp
    qed
  qed
qed

lemma collapse_hspace_no_tab: "CHR 0x09 \<notin> set (collapse_hspace s)"
  by (induction s rule: collapse_hspace.induct) (auto simp: is_hspace_def)

lemma collapse_hspace_head:
  "s \<noteq> [] \<Longrightarrow> \<not> is_hspace (hd s) \<Longrightarrow> collapse_hspace s \<noteq> [] \<and> hd (collapse_hspace s) = hd s"
  by (cases s) auto

lemma collapse_hspace_no_double_space: "\<not> contains ''  '' (collapse_hspace s)"
proof (induction s rule: collapse_hspace.induct)
  case 1
  then show ?case by simp
next
  case (2 c cs)
  show ?case
  proof (cases "is_hspace c")
    case True
    let ?d = "dropWhile is_hspace cs"
    have "\<not> starts_with '' '' (collapse_hspace ?d)"
    proof (cases ?d)
      case Nil
      have "collapse_hspace ?d = []" by (simp only: Nil collapse_hspace.simps)
      then show ?thesis by (simp only: starts_with.simps list.case simp_thms)
    next
      case (Cons a d')
      then have "\<not> is_hspace a" using hd_dropWhile [of is_hspace cs] by auto
      then have "collapse_hspace (a # d') = a # collapse_hspace d'" and "CHR '' '' \<noteq> a"
        by (auto simp: is_hspace_def)
      then show ?thesis by (simp only: Cons starts_with.simps list.case simp_thms)
    qed
    with "2.IH"(1) True show ?thesis by (auto split: list.splits)
  next
    case False
    then have "c \<noteq> CHR '' ''" by (auto simp: is_hspace_def)
    with "2.IH"(2) False show ?thesis by auto
  qed
qed

lemma takeWhile_after_last_nl:
  "\<exists>u. cs = u @ after_last_nl (takeWhile P cs) @ dropWhile P cs"
proof -
  let ?ws = "takeWhile P cs"
  have "?ws = rev (dropWhile (\<lambda>c. c \<noteq> NL) (rev ?ws)) @ after_last_nl ?ws"
    unfolding after_last_nl_def
    by (metis rev_append rev_rev_ident takeWhile_dropWhile_id)
  then have "cs = rev (dropWhile (\<lambda>c. c \<noteq> NL) (rev ?ws)) @ after_last_nl ?ws @ dropWhile P cs"
    by (metis append.assoc takeWhile_dropWhile_id)
  then show ?thesis by blast
qed

lemma collapse_newlines_starts:
  assumes "NL \<notin> set p"
  shows "starts_with p (collapse_newlines s) \<Longrightarrow> starts_with p s"
  using assms
proof (induction p arbitrary: s)
  case Nil
  then show ?case by simp
next
  case (Cons a p)
  show ?case
  proof (cases s)
    case Nil
    with Cons.prems show ?thesis by simp
  next
    case (Cons c cs)
    show ?thesis
    proof (cases "c = NL \<and> NL \<in> set (takeWhile py_isspace cs)")
      case True
      with Cons Cons.prems show ?thesis by auto
    next
      case False
      with Cons Cons.prems have "a = c" and "starts_with p (collapse_newlines cs)" by auto
      with Cons.IH [of cs] Cons.prems(2) Cons show ?thesis by simp
    qed
  qed
qed

lemma collapse_newlines_contains:
  assumes "p \<noteq> []" and "NL \<notin> set p"
  shows "contains p (collapse_newlines s) \<Longrightarrow> contains p s"
proof (induction s rule: collapse_newlines.induct)
  case 1
  with assms(1) show ?case by simp
next
  case (2 c cs)
  show ?case
  proof (cases "c = NL \<and> NL \<in> set (takeWhile py_isspace cs)")
    case True
    let ?r = "after_last_nl (takeWhile py_isspace cs) @ dropWhile py_isspace cs"
    from assms obtain a p' where p: "p = a # p'" "a \<noteq> NL" by (cases p) auto
    then have "\<not> starts_with p (NL # collapse_newlines ?r)" by auto
    with "2.prems" True have "contains p (collapse_newlines ?r)" by simp
    with "2.IH"(1) True have r: "contains p ?r" by simp
    obtain u where "cs = u @ ?r" using takeWhile_after_last_nl [of cs py_isspace] by auto
    with contains_substring [OF r, of u "[]"] have "contains p cs" by simp
    then show ?thesis by simp
  next
    case False
    with "2.prems" consider "starts_with p (collapse_newlines (c # cs))"
      | "contains p (collapse_newlines cs)" by auto
    then show ?thesis
    proof cases
      case 1
      with collapse_newlines_starts [OF assms(2)] have "starts_with p (c # cs)" by blast
      then show ?thesis by simp
    next
      case 2
      with "2.IH"(2) False show ?thesis by simp
    qed
  qed
qed

lemma collapse_newlines_set: "set (collapse_newlines s) \<subseteq> set s"
proof (induction s rule: collapse_newlines.induct)
  case 1
  then show ?case by simp
next
  case (2 c cs)
  show ?case
  proof (cases "c = NL \<and> NL \<in> set (takeWhile py_isspace cs)")
    case True
    let ?r = "after_last_nl (takeWhile py_isspace cs) @ dropWhile py_isspace cs"
    obtain u where "cs = u @ ?r" using takeWhile_after_last_nl [of cs py_isspace] by auto
    then have "set ?r \<subseteq> set cs" by (metis set_append sup_ge2)
    with "2.IH"(1) True show ?thesis by auto
  next
    case False
    with "2.IH"(2) show ?thesis by auto
  qed
qed


text \<open>
  A blank line: a newline that is followed, behind whitespace only, by another newline
  (the text matched by the pattern \<open>\n\s*\n\<close>).
\<close>

fun has_blank_line :: "string \<Rightarrow> bool" where
  "has_blank_line [] = False"
| "has_blank_line (c # cs) =
     ((c = NL \<and> NL \<in> set (takeWhile py_isspace cs)) \<or> has_blank_line cs)"

text \<open>The claim's reading of the terminator: one trailing semicolon is removed.\<close>

definition strip_single_terminator :: "string \<Rightarrow> string" where
  "strip_single_terminator s = (if s \<noteq> [] \<and> last s = CHR '';'' then butlast s else s)"

lemma py_isspace_NL [simp]: "py_isspace NL"
  by (simp add: py_isspace_def NL_def)

lemma collapse_newlines_no_nl_prefix:
  "NL \<notin> set a \<Longrightarrow> collapse_newlines (a @ d) = a @ collapse_newlines d"
  by (induction a) auto

lemma takeWhile_collapse_newlines:
  assumes "NL \<notin> set (takeWhile py_isspace cs)"
  shows "takeWhile py_isspace (collapse_newlines cs) = takeWhile py_isspace cs"
proof -
  let ?a = "takeWhile py_isspace cs" and ?d = "dropWhile py_isspace cs"
  have "collapse_newlines cs = collapse_newlines (?a @ ?d)" by simp
  also have "\<dots> = ?a @ collapse_newlines ?d"
    using assms by (rule collapse_newlines_no_nl_prefix)
  finally have c: "collapse_newlines cs = ?a @ collapse_newlines ?d" .
  have "takeWhile py_isspace (collapse_newlines ?d) = []"
  proof (cases ?d)
    case Nil
    then show ?thesis by (simp only: collapse_newlines.simps takeWhile.simps)
  next
    case (Cons x d')
    then have x: "\<not> py_isspace x" using hd_dropWhile [of py_isspace cs] by auto
    then have "x \<noteq> NL" by auto
    then have "collapse_newlines (x # d') = x # collapse_newlines d'" by simp
    with x show ?thesis by (simp only: Cons takeWhile.simps if_False)
  qed
  moreover have "\<forall>x \<in> set ?a. py_isspace x" by (auto dest: set_takeWhileD)
  ultimately have "takeWhile py_isspace (?a @ collapse_newlines ?d) = ?a"
    by (simp add: takeWhile_append2)
  with c show ?thesis by simp
qed

lemma after_last_nl_no_nl: "NL \<notin> set (after_last_nl ws)"
  by (auto simp: after_last_nl_def dest: set_takeWhileD)

lemma after_last_nl_subset: "set (after_last_nl ws) \<subseteq> set ws"
  by (auto simp: after_last_nl_def dest: set_takeWhileD)

lemma takeWhile_rest_no_nl:
  "NL \<notin> set (takeWhile py_isspace
            (after_last_nl (takeWhile py_isspace cs) @ dropWhile py_isspace cs))"
proof -
  let ?a = "after_last_nl (takeWhile py_isspace cs)" and ?d = "dropWhile py_isspace cs"
  have sp: "\<forall>x \<in> set ?a. py_isspace x"
    using after_last_nl_subset [of "takeWhile py_isspace cs"] by (auto dest: set_takeWhileD)
  have "takeWhile py_isspace ?d = []"
  proof (cases ?d)
    case Nil
    then show ?thesis by (simp only: takeWhile.simps)
  next
    case (Cons x d')
    then have "\<not> py_isspace x" using hd_dropWhile [of py_isspace cs] by auto
    then show ?thesis by (simp only: Cons takeWhile.simps if_False)
  qed
  with sp have "takeWhile py_isspace (?a @ ?d) = ?a" by (simp add: takeWhile_append2)
  with after_last_nl_no_nl show ?thesis by simp
qed

lemma collapse_newlines_no_blank_line: "\<not> has_blank_line (collapse_newlines s)"
proof (induction s rule: collapse_newlines.induct)
  case 1
  then show ?case by simp
next
  case (2 c cs)
  show ?case
  proof (cases "c = NL \<and> NL \<in> set (takeWhile py_isspace cs)")
    case True
    let ?r = "after_last_nl (takeWhile py_isspace cs) @ dropWhile py_isspace cs"
    have "NL \<notin> set (takeWhile py_isspace (collapse_newlines ?r))"
      using takeWhile_rest_no_nl [of cs] takeWhile_collapse_newlines [of ?r] by simp
    with "2.IH"(1) True show ?thesis by simp
  next
    case False
    have "c = NL \<Longrightarrow> NL \<notin> set (takeWhile py_isspace (collapse_newlines cs))"
      using False takeWhile_collapse_newlines [of cs] by simp
    with "2.IH"(2) False show ?thesis by auto
  qed
qed

lemma has_blank_line_suffix: "has_blank_line v \<Longrightarrow> has_blank_line (u @ v)"
  by (induction u) auto

lemma takeWhile_append_mono: "set (takeWhile P cs) \<subseteq> set (takeWhile P (cs @ v))"
  by (induction cs) auto

lemma has_blank_line_prefix: "has_blank_line u \<Longrightarrow> has_blank_line (u @ v)"
proof (induction u)
  case Nil
  then show ?case by simp
next
  case (Cons c cs)
  then show ?case using takeWhile_append_mono [of py_isspace cs v] by auto
qed

lemma strip_decomp: "\<exists>u v. s = u @ strip s @ v"
proof -
  let ?t = "dropWhile py_isspace s"
  have "?t = rev (dropWhile py_isspace (rev ?t)) @ rev (takeWhile py_isspace (rev ?t))"
    by (metis rev_append rev_rev_ident takeWhile_dropWhile_id)
  then have "s = takeWhile py_isspace s @ strip s @ rev (takeWhile py_isspace (rev ?t))"
    unfolding strip_def rstrip_def lstrip_def by (metis takeWhile_dropWhile_id)
  then show ?thesis by blast
qed

lemma has_blank_line_strip: "has_blank_line (strip s) \<Longrightarrow> has_blank_line s"
proof -
  assume a: "has_blank_line (strip s)"
  obtain u v where s: "s = u @ strip s @ v" using strip_decomp by blast
  from a have "has_blank_line (strip s @ v)" by (rule has_blank_line_prefix)
  then have "has_blank_line (u @ strip s @ v)" by (rule has_blank_line_suffix)
  with s show ?thesis by simp
qed

lemma set_strip: "set (strip s) \<subseteq> set s"
proof -
  obtain u v where "s = u @ strip s @ v" using strip_decomp by blast
  then have "set s = set u \<union> set (strip s) \<union> set v" by (metis set_append sup_assoc)
  then show ?thesis by blast
qed

lemma strip_trimmed:
  "strip s = [] \<or> (\<not> py_isspace (hd (strip s)) \<and> \<not> py_isspace (last (strip s)))"
proof (cases "strip s = []")
  case True
  then show ?thesis by simp
next
  case False
  let ?t = "dropWhile py_isspace s"
  let ?r = "dropWhile py_isspace (rev ?t)"
  have st: "strip s = rev ?r" by (simp add: strip_def rstrip_def lstrip_def)
  with False have r: "?r \<noteq> []" by simp
  then have hr: "\<not> py_isspace (hd ?r)" by (rule hd_dropWhile)
  have t: "?t \<noteq> []"
  proof
    assume "?t = []"
    then have "?r = []" by (simp only: rev.simps dropWhile.simps)
    with r show False by simp
  qed
  then have ht: "\<not> py_isspace (hd ?t)" by (rule hd_dropWhile)
  have "rev ?t = takeWhile py_isspace (rev ?t) @ ?r" by simp
  with r have "last (rev ?t) = last ?r" by (metis last_appendR)
  with t have "last ?r = hd ?t" by (simp add: last_rev)
  with r have "hd (rev ?r) = hd ?t" by (simp add: hd_rev)
  moreover from r have "last (rev ?r) = hd ?r" by (simp add: last_rev)
  ultimately show ?thesis using st hr ht by simp
qed

lemma starts_with_append_semis:
  assumes "CHR '';'' \<notin> set p"
  shows "starts_with p (u @ replicate n (CHR '';'')) \<longleftrightarrow> starts_with p u"
  using assms
proof (induction p arbitrary: u)
  case Nil
  then show ?case by simp
next
  case (Cons a p)
  show ?case
  proof (cases u)
    case Nil
    with Cons.prems show ?thesis by (cases n) auto
  next
    case (Cons c cs)
    with Cons.IH [of cs] Cons.prems show ?thesis by simp
  qed
qed

lemma ci_starts_with_append_semis:
  assumes "\<forall>a \<in> set p. py_lower_char a \<noteq> py_lower_char (CHR '';'')"
  shows "ci_starts_with p (u @ replicate n (CHR '';'')) \<longleftrightarrow> ci_starts_with p u"
  using assms
proof (induction p arbitrary: u)
  case Nil
  then show ?case by simp
next
  case (Cons a p)
  show ?case
  proof (cases u)
    case Nil
    with Cons.prems show ?thesis by (cases n) auto
  next
    case (Cons c cs)
    with Cons.IH [of cs] Cons.prems show ?thesis by simp
  qed
qed

lemma ci_starts_with_length: "ci_starts_with p u \<Longrightarrow> length p \<le> length u"
  by (induction p arbitrary: u) (auto split: list.splits)

lemma starts_with_length: "starts_with p u \<Longrightarrow> length p \<le> length u"
  by (induction p arbitrary: u) (auto split: list.splits)

lemma remove_fences_semis:
  "remove_fences (replicate n (CHR '';'')) = replicate n (CHR '';'')"
  by (induction n) (simp_all add: fence_def)

lemma remove_fences_append_semis:
  "remove_fences (s @ replicate n (CHR '';'')) = remove_fences s @ replicate n (CHR '';'')"
proof (induction s rule: remove_fences.induct)
  case 1
  then show ?case by (simp add: remove_fences_semis)
next
  case (2 c cs)
  let ?semis = "replicate n (CHR '';'')"
  have f: "starts_with fence ((c # cs) @ ?semis) \<longleftrightarrow> starts_with fence (c # cs)"
    by (rule starts_with_append_semis) (simp add: fence_def)
  show ?case
  proof (cases "starts_with fence (c # cs)")
    case False
    with f "2.IH"(3) show ?thesis by simp
  next
    case True
    from starts_with_length [OF True] have l2: "2 \<le> length cs" by (simp add: fence_def)
    then have d2: "drop 2 (cs @ ?semis) = drop 2 cs @ ?semis" by simp
    have low: "\<forall>a \<in> set ''sql''. py_lower_char a \<noteq> py_lower_char (CHR '';'')"
    proof -
      have "py_lower_char CHR ''s'' \<noteq> py_lower_char CHR '';''"
        "py_lower_char CHR ''q'' \<noteq> py_lower_char CHR '';''"
        "py_lower_char CHR ''l'' \<noteq> py_lower_char CHR '';''" by code_simp+
      then show ?thesis by simp
    qed
    have ci: "ci_starts_with ''sql'' (drop 2 cs @ ?semis) \<longleftrightarrow> ci_starts_with ''sql'' (drop 2 cs)"
      using low by (rule ci_starts_with_append_semis)
    show ?thesis
    proof (cases "ci_starts_with ''sql'' (drop 2 cs)")
      case sql: True
      from ci_starts_with_length [OF sql] l2 have "5 \<le> length cs" by simp
      then have d5: "drop 5 (cs @ ?semis) = drop 5 cs @ ?semis" by simp
      from "2.IH"(1) [OF True sql] True sql f ci d2 d5 show ?thesis
        by (simp del: drop_append)
    next
      case nosql: False
      from "2.IH"(2) [OF True nosql] True nosql f ci d2 show ?thesis
        by (simp del: drop_append)
    qed
  qed
qed

lemma rstrip_chars_append_semis:
  "rstrip_chars '';'' (r @ replicate n (CHR '';'')) = rstrip_chars '';'' r"
proof -
  have "dropWhile (\<lambda>c. c \<in> set '';'') (replicate n (CHR '';'') @ rev r)
          = dropWhile (\<lambda>c. c \<in> set '';'') (rev r)"
    by (intro dropWhile_append2) simp
  then show ?thesis by (simp add: rstrip_chars_def)
qed

lemma clean_sql_append_semis:
  "clean_sql (sql @ replicate n (CHR '';'')) = clean_sql sql"
proof -
  let ?semis = "replicate n (CHR '';'')"
  let ?pipe = "\<lambda>s. strip (collapse_newlines (collapse_hspace
                   (strip (rstrip_chars '';'' (remove_fences s)))))"
  have e: "?pipe [] = []" by (simp add: rstrip_chars_def strip_def rstrip_def lstrip_def)
  have a: "clean_sql s = ?pipe s" for s
    using e by (simp add: clean_sql_def Let_def)
  have "?pipe (sql @ ?semis) = ?pipe sql"
    by (simp only: remove_fences_append_semis rstrip_chars_append_semis)
  then show ?thesis by (simp only: a)
qed

section \<open>Cleaning keeps the statement\<close>

text \<open>
  The statement that a text holds: its lines that are not blank, each as the list of its
  tokens (the pieces between whitespace).
\<close>

definition blank_line :: "string \<Rightarrow> bool" where
  "blank_line l = list_all py_isspace l"

definition nonblank_lines :: "string \<Rightarrow> string list" where
  "nonblank_lines s = filter (\<lambda>l. \<not> blank_line l) (split_on NL s)"

definition line_tokens :: "string \<Rightarrow> string list list" where
  "line_tokens s = map split_ws (nonblank_lines s)"

lemma split_on_nonempty [simp]: "split_on sep s \<noteq> []"
  by (induction s) (auto split: list.splits)

lemma split_on_sep [simp]: "split_on sep (sep # s) = [] # split_on sep s"
  by (simp split: list.splits)

lemma split_on_other:
  "c \<noteq> sep \<Longrightarrow> split_on sep (c # s) = (c # hd (split_on sep s)) # tl (split_on sep s)"
  by (simp split: list.splits)

declare split_on.simps(2) [simp del] split_ws.simps [simp del]

lemma split_ws_Nil: "dropWhile py_isspace s = [] \<Longrightarrow> split_ws s = []"
  by (subst split_ws.simps) (simp only: list.case)

lemma split_ws_Cons:
  "dropWhile py_isspace s = c # cs \<Longrightarrow>
     split_ws s = takeWhile (\<lambda>x. \<not> py_isspace x) (c # cs)
                  # split_ws (dropWhile (\<lambda>x. \<not> py_isspace x) cs)"
  by (subst split_ws.simps) (simp only: list.case)

lemma split_on_append:
  "split_on sep (s @ w)
     = butlast (split_on sep s) @ [last (split_on sep s) @ hd (split_on sep w)]
       @ tl (split_on sep w)"
proof (induction s)
  case Nil
  then show ?case by simp
next
  case (Cons c s)
  show ?case
  proof (cases "c = sep")
    case True
    with Cons show ?thesis by simp
  next
    case False
    let ?l = "split_on sep s"
    have l: "?l \<noteq> []" by simp
    show ?thesis
    proof (cases "tl ?l = []")
      case True
      then have one: "?l = [hd ?l]" using l by (cases ?l) auto
      then have "butlast ?l = []" "last ?l = hd ?l"
        by (metis butlast.simps(2) list.distinct(1) butlast.simps(1), metis last.simps)
      with Cons.IH False True show ?thesis
        by (simp add: split_on_other)
    next
      case False': False
      then obtain a b rest where ab: "?l = a # b # rest"
        using l by (cases ?l; cases "tl ?l") auto
      with Cons.IH False show ?thesis
        by (simp add: split_on_other)
    qed
  qed
qed

lemma split_ws_space_Cons: "py_isspace c \<Longrightarrow> split_ws (c # s) = split_ws s"
  by (subst split_ws.simps, subst (2) split_ws.simps) simp

lemma split_ws_dropWhile: "split_ws (dropWhile py_isspace s) = split_ws s"
  by (induction s) (simp_all add: split_ws_space_Cons)

lemma blank_dropWhile: "blank_line w \<longleftrightarrow> dropWhile py_isspace w = []"
  by (simp add: blank_line_def list_all_iff)

lemma split_ws_blank: "blank_line w \<Longrightarrow> split_ws w = []"
  by (simp only: blank_dropWhile split_ws_Nil)

lemma blank_line_simps [simp]:
  "blank_line []" "blank_line (c # s) \<longleftrightarrow> py_isspace c \<and> blank_line s"
  "blank_line (a @ b) \<longleftrightarrow> blank_line a \<and> blank_line b"
  by (simp_all add: blank_line_def)

lemma line_tokens_Nil [simp]: "line_tokens [] = []"
  by (simp add: line_tokens_def nonblank_lines_def)

lemma line_tokens_space_Cons:
  assumes "py_isspace c"
  shows "line_tokens (c # s) = line_tokens s"
proof (cases "c = NL")
  case True
  then show ?thesis by (simp add: line_tokens_def nonblank_lines_def)
next
  case False
  obtain a rest where l: "split_on NL s = a # rest"
    by (cases "split_on NL s") simp_all
  with False have "split_on NL (c # s) = (c # a) # rest"
    by (simp add: split_on_other)
  with l assms show ?thesis
    by (simp add: line_tokens_def nonblank_lines_def split_ws_space_Cons)
qed

lemma line_tokens_dropWhile: "line_tokens (dropWhile py_isspace s) = line_tokens s"
  by (induction s) (simp_all add: line_tokens_space_Cons)

lemma lines_blank: "blank_line w \<Longrightarrow> \<forall>l \<in> set (split_on NL w). blank_line l"
proof (induction w)
  case Nil
  then show ?case by simp
next
  case (Cons c w)
  then have ih: "\<forall>l \<in> set (split_on NL w). blank_line l" by simp
  show ?case
  proof (cases "c = NL")
    case True
    with ih show ?thesis by simp
  next
    case False
    have "hd (split_on NL w) \<in> set (split_on NL w)" by simp
    with ih have h: "blank_line (hd (split_on NL w))" by blast
    have "set (tl (split_on NL w)) \<subseteq> set (split_on NL w)"
      by (metis list.set_sel(2) split_on_nonempty subsetI)
    with ih have t: "\<forall>l \<in> set (tl (split_on NL w)). blank_line l" by blast
    from False Cons.prems h t show ?thesis by (simp add: split_on_other)
  qed
qed

lemma split_ws_append_blank:
  "blank_line w \<Longrightarrow> split_ws (l @ w) = split_ws l"
proof (induction l rule: length_induct)
  case (1 l)
  show ?case
  proof (cases "dropWhile py_isspace l")
    case Nil
    then have "blank_line l" by (simp only: blank_dropWhile)
    with "1.prems" show ?thesis by (simp add: split_ws_blank)
  next
    case (Cons c cs)
    then have c: "\<not> py_isspace c" using hd_dropWhile [of py_isspace l] by auto
    from Cons obtain x where x: "x \<in> set l" "\<not> py_isspace x"
      by (metis dropWhile_eq_Nil_conv list.distinct(1))
    have "dropWhile py_isspace (l @ w) = dropWhile py_isspace l @ w"
      using x by (rule dropWhile_append1)
    with Cons have d: "dropWhile py_isspace (l @ w) = (c # cs) @ w" by simp
    let ?a = "takeWhile (\<lambda>x. \<not> py_isspace x) cs"
    let ?b = "dropWhile (\<lambda>x. \<not> py_isspace x) cs"
    have w: "takeWhile (\<lambda>x. \<not> py_isspace x) w = []" "dropWhile (\<lambda>x. \<not> py_isspace x) w = w"
      using "1.prems" by (cases w; simp)+
    have tw: "takeWhile (\<lambda>x. \<not> py_isspace x) (cs @ w) = ?a"
      and dw: "dropWhile (\<lambda>x. \<not> py_isspace x) (cs @ w) = ?b @ w"
    proof -
      show "takeWhile (\<lambda>x. \<not> py_isspace x) (cs @ w) = ?a"
      proof (cases "\<forall>x \<in> set cs. \<not> py_isspace x")
        case True
        then have "takeWhile (\<lambda>x. \<not> py_isspace x) cs = cs" by simp
        moreover from True have "takeWhile (\<lambda>x. \<not> py_isspace x) (cs @ w)
            = cs @ takeWhile (\<lambda>x. \<not> py_isspace x) w"
          by (intro takeWhile_append2) simp
        ultimately show ?thesis using w(1) by (simp only: append_Nil2)
      next
        case False
        then show ?thesis by (auto simp: takeWhile_append1)
      qed
      show "dropWhile (\<lambda>x. \<not> py_isspace x) (cs @ w) = ?b @ w"
      proof (cases "\<forall>x \<in> set cs. \<not> py_isspace x")
        case True
        then have "dropWhile (\<lambda>x. \<not> py_isspace x) cs = []" by simp
        moreover from True have "dropWhile (\<lambda>x. \<not> py_isspace x) (cs @ w)
            = dropWhile (\<lambda>x. \<not> py_isspace x) w"
          by (intro dropWhile_append2) simp
        ultimately show ?thesis using w(2) by (simp only: append_Nil)
      next
        case False
        then show ?thesis by (auto simp: dropWhile_append1)
      qed
    qed
    have "length ?b \<le> length cs" by (rule length_dropWhile_le)
    moreover have "length (c # cs) \<le> length l"
      using Cons length_dropWhile_le [of py_isspace l] by simp
    ultimately have "length ?b < length l" by simp
    with "1.IH" "1.prems" have ih: "split_ws (?b @ w) = split_ws ?b" by blast
    have "dropWhile py_isspace (l @ w) = c # (cs @ w)" using d by simp
    then have "split_ws (l @ w) = takeWhile (\<lambda>x. \<not> py_isspace x) (c # (cs @ w))
          # split_ws (dropWhile (\<lambda>x. \<not> py_isspace x) (cs @ w))"
      by (rule split_ws_Cons)
    then have "split_ws (l @ w) = (c # ?a) # split_ws (?b @ w)"
      using c tw dw by simp
    moreover have "split_ws l = (c # ?a) # split_ws ?b"
      using split_ws_Cons [OF Cons] c by simp
    ultimately show ?thesis using ih by simp
  qed
qed

lemma line_tokens_append_blank:
  assumes "blank_line w"
  shows "line_tokens (s @ w) = line_tokens s"
proof -
  obtain w0 wrest where lw: "split_on NL w = w0 # wrest"
    by (cases "split_on NL w") simp_all
  obtain init la where ls: "split_on NL s = init @ [la]"
    by (cases "split_on NL s" rule: rev_cases) simp_all
  from lines_blank [OF assms] lw have bw: "blank_line w0" "\<forall>l \<in> set wrest. blank_line l"
    by simp_all
  then have e: "filter (\<lambda>l. \<not> blank_line l) wrest = []"
    by (simp add: filter_empty_conv)
  have "split_on NL (s @ w) = init @ [la @ w0] @ wrest"
    by (simp add: split_on_append lw ls)
  then have "line_tokens (s @ w)
      = map split_ws (filter (\<lambda>l. \<not> blank_line l) init)
        @ map split_ws (filter (\<lambda>l. \<not> blank_line l) [la @ w0])"
    using e by (simp add: line_tokens_def nonblank_lines_def)
  also have "map split_ws (filter (\<lambda>l. \<not> blank_line l) [la @ w0])
      = map split_ws (filter (\<lambda>l. \<not> blank_line l) [la])"
    using bw(1) by (simp add: split_ws_append_blank)
  finally show ?thesis by (simp add: line_tokens_def nonblank_lines_def ls)
qed

lemma line_tokens_strip: "line_tokens (strip s) = line_tokens s"
proof -
  let ?t = "dropWhile py_isspace s"
  let ?w = "rev (takeWhile py_isspace (rev ?t))"
  have t: "?t = strip s @ ?w"
    unfolding strip_def rstrip_def lstrip_def
    by (metis rev_append rev_rev_ident takeWhile_dropWhile_id)
  have "blank_line ?w"
    by (auto simp: blank_line_def list_all_iff dest: set_takeWhileD)
  then have "line_tokens (strip s @ ?w) = line_tokens (strip s)"
    by (rule line_tokens_append_blank)
  with t have "line_tokens ?t = line_tokens (strip s)" by simp
  then show ?thesis by (simp add: line_tokens_dropWhile)
qed


lemma is_hspace_isspace: "is_hspace c \<Longrightarrow> py_isspace c"
  by (auto simp: is_hspace_def py_isspace_def)

lemma is_hspace_not_NL: "is_hspace c \<Longrightarrow> c \<noteq> NL"
  by (auto simp: is_hspace_def NL_def)

lemma lines_dropWhile_hspace:
  "split_on NL cs = a # rest \<Longrightarrow>
     split_on NL (dropWhile is_hspace cs) = dropWhile is_hspace a # rest"
proof (induction cs arbitrary: a rest)
  case Nil
  then show ?case by simp
next
  case (Cons c cs)
  obtain a' rest' where l: "split_on NL cs = a' # rest'"
    by (cases "split_on NL cs") simp_all
  show ?case
  proof (cases "c = NL")
    case True
    with Cons.prems have "a = []" by simp
    with True Cons.prems show ?thesis by (simp add: is_hspace_def NL_def)
  next
    case False
    with l Cons.prems have a: "a = c # a'" "rest = rest'" by (simp_all add: split_on_other)
    show ?thesis
    proof (cases "is_hspace c")
      case True
      with Cons.IH [OF l] a show ?thesis by simp
    next
      case nh: False
      with Cons.prems a show ?thesis by simp
    qed
  qed
qed

lemma lines_collapse_hspace:
  "split_on NL (collapse_hspace s) = map collapse_hspace (split_on NL s)"
proof (induction s rule: collapse_hspace.induct)
  case 1
  then show ?case by simp
next
  case (2 c cs)
  obtain a rest where l: "split_on NL cs = a # rest"
    by (cases "split_on NL cs") simp_all
  show ?case
  proof (cases "is_hspace c")
    case True
    then have c: "c \<noteq> NL" by (rule is_hspace_not_NL)
    have sp: "CHR '' '' \<noteq> NL" by (simp add: NL_def)
    from "2.IH"(1) [OF True] lines_dropWhile_hspace [OF l]
    have ih: "split_on NL (collapse_hspace (dropWhile is_hspace cs))
                = collapse_hspace (dropWhile is_hspace a) # map collapse_hspace rest"
      by simp
    have "split_on NL (collapse_hspace (c # cs))
            = (CHR '' '' # collapse_hspace (dropWhile is_hspace a)) # map collapse_hspace rest"
      using True sp ih by (simp add: split_on_other)
    moreover have "map collapse_hspace (split_on NL (c # cs))
            = (CHR '' '' # collapse_hspace (dropWhile is_hspace a)) # map collapse_hspace rest"
      using True c l by (simp add: split_on_other)
    ultimately show ?thesis by simp
  next
    case False
    show ?thesis
    proof (cases "c = NL")
      case True
      with False "2.IH"(2) show ?thesis by simp
    next
      case nn: False
      with False "2.IH"(2) l show ?thesis by (simp add: split_on_other)
    qed
  qed
qed

lemma blank_dropWhile_hspace: "blank_line (dropWhile is_hspace cs) \<longleftrightarrow> blank_line cs"
  by (induction cs) (auto dest: is_hspace_isspace)

lemma blank_collapse_hspace: "blank_line (collapse_hspace l) \<longleftrightarrow> blank_line l"
proof (induction l rule: collapse_hspace.induct)
  case 1
  then show ?case by simp
next
  case (2 c cs)
  show ?case
  proof (cases "is_hspace c")
    case True
    have "py_isspace (CHR '' '')" by (simp add: py_isspace_def)
    with True "2.IH"(1) is_hspace_isspace [OF True] show ?thesis
      by (simp add: blank_dropWhile_hspace)
  next
    case False
    with "2.IH"(2) show ?thesis by simp
  qed
qed

lemma split_ws_dropWhile_hspace: "split_ws (dropWhile is_hspace cs) = split_ws cs"
  by (induction cs) (auto simp: split_ws_space_Cons dest: is_hspace_isspace)

lemma collapse_hspace_append:
  "\<forall>x \<in> set a. \<not> is_hspace x \<Longrightarrow> collapse_hspace (a @ b) = a @ collapse_hspace b"
  by (induction a) auto

lemma collapse_hspace_head_space:
  "b = [] \<or> py_isspace (hd b) \<Longrightarrow> collapse_hspace b = [] \<or> py_isspace (hd (collapse_hspace b))"
  by (cases b) (auto simp: py_isspace_def)

lemma split_ws_collapse_hspace: "split_ws (collapse_hspace l) = split_ws l"
proof (induction l rule: length_induct)
  case (1 l)
  show ?case
  proof (cases l)
    case Nil
    then show ?thesis by simp
  next
    case (Cons c cs)
    show ?thesis
    proof (cases "is_hspace c")
      case True
      let ?d = "dropWhile is_hspace cs"
      have "length ?d \<le> length cs" by (rule length_dropWhile_le)
      with Cons have "length ?d < length l" by simp
      with "1.IH" have "split_ws (collapse_hspace ?d) = split_ws ?d" by blast
      moreover have "py_isspace (CHR '' '')" by (simp add: py_isspace_def)
      ultimately show ?thesis
        using True Cons is_hspace_isspace [OF True]
        by (simp add: split_ws_space_Cons split_ws_dropWhile_hspace)
    next
      case nh: False
      from Cons have "length cs < length l" by simp
      with "1.IH" have ihcs: "split_ws (collapse_hspace cs) = split_ws cs" by blast
      show ?thesis
      proof (cases "py_isspace c")
        case True
        with nh Cons ihcs show ?thesis by (simp add: split_ws_space_Cons)
      next
        case False
        let ?N = "\<lambda>x. \<not> py_isspace x"
        let ?a = "takeWhile ?N cs" and ?b = "dropWhile ?N cs"
        have a: "\<forall>x \<in> set ?a. \<not> is_hspace x"
          by (auto dest: set_takeWhileD is_hspace_isspace)
        have an: "\<forall>x \<in> set ?a. ?N x" by (auto dest: set_takeWhileD)
        have "collapse_hspace cs = collapse_hspace (?a @ ?b)" by simp
        also have "\<dots> = ?a @ collapse_hspace ?b"
          using a by (rule collapse_hspace_append)
        finally have ccs: "collapse_hspace cs = ?a @ collapse_hspace ?b" .
        have hb: "?b = [] \<or> py_isspace (hd ?b)"
          using hd_dropWhile [of ?N cs] by auto
        from collapse_hspace_head_space [OF hb]
        have hcb: "collapse_hspace ?b = [] \<or> py_isspace (hd (collapse_hspace ?b))" .
        then have t0: "takeWhile ?N (collapse_hspace ?b) = []"
          and d0: "dropWhile ?N (collapse_hspace ?b) = collapse_hspace ?b"
          by (cases "collapse_hspace ?b"; auto)+
        have "takeWhile ?N (?a @ collapse_hspace ?b) = ?a @ takeWhile ?N (collapse_hspace ?b)"
          using an by (intro takeWhile_append2) simp
        with t0 have tw: "takeWhile ?N (collapse_hspace cs) = ?a" by (simp add: ccs)
        have "dropWhile ?N (?a @ collapse_hspace ?b) = dropWhile ?N (collapse_hspace ?b)"
          using an by (intro dropWhile_append2) simp
        with d0 have dw: "dropWhile ?N (collapse_hspace cs) = collapse_hspace ?b"
          by (simp add: ccs)
        have "length ?b \<le> length cs" by (rule length_dropWhile_le)
        with Cons have "length ?b < length l" by simp
        with "1.IH" have ihb: "split_ws (collapse_hspace ?b) = split_ws ?b" by blast
        have "dropWhile py_isspace (c # collapse_hspace cs) = c # collapse_hspace cs"
          using False by simp
        from split_ws_Cons [OF this] False tw dw
        have l1: "split_ws (c # collapse_hspace cs) = (c # ?a) # split_ws (collapse_hspace ?b)"
          by simp
        have "dropWhile py_isspace (c # cs) = c # cs" using False by simp
        from split_ws_Cons [OF this] False
        have l2: "split_ws (c # cs) = (c # ?a) # split_ws ?b" by simp
        from l1 l2 ihb nh Cons show ?thesis by simp
      qed
    qed
  qed
qed

lemma line_tokens_collapse_hspace: "line_tokens (collapse_hspace s) = line_tokens s"
proof -
  have "line_tokens (collapse_hspace s)
      = map split_ws (filter (\<lambda>l. \<not> blank_line l) (map collapse_hspace (split_on NL s)))"
    by (simp add: line_tokens_def nonblank_lines_def lines_collapse_hspace)
  also have "\<dots> = map (\<lambda>l. split_ws (collapse_hspace l))
                     (filter (\<lambda>l. \<not> blank_line (collapse_hspace l)) (split_on NL s))"
    by (simp add: filter_map comp_def)
  also have "\<dots> = line_tokens s"
    by (simp add: line_tokens_def nonblank_lines_def blank_collapse_hspace
        split_ws_collapse_hspace)
  finally show ?thesis .
qed

lemma ws_run_last_nl:
  assumes "NL \<in> set ws" and "blank_line ws"
  shows "\<exists>p. blank_line p \<and> ws = p @ [NL] @ after_last_nl ws"
proof -
  let ?r = "dropWhile (\<lambda>c. c \<noteq> NL) (rev ws)"
  from assms(1) have "?r \<noteq> []" by (simp add: dropWhile_eq_Nil_conv)
  then obtain x where r: "?r = NL # x"
    using hd_dropWhile [of "\<lambda>c. c \<noteq> NL" "rev ws"] by (cases ?r) auto
  have "rev ws = takeWhile (\<lambda>c. c \<noteq> NL) (rev ws) @ ?r" by simp
  then have "ws = rev ?r @ after_last_nl ws"
    unfolding after_last_nl_def by (metis rev_append rev_rev_ident)
  with r have ws: "ws = rev x @ [NL] @ after_last_nl ws" by simp
  then have "set (rev x) \<subseteq> set ws" by (metis set_append sup_ge1)
  with assms(2) have "blank_line (rev x)" by (auto simp: blank_line_def list_all_iff)
  with ws show ?thesis by blast
qed

lemma lines_blank_prefix:
  assumes "blank_line p"
  shows "filter (\<lambda>l. \<not> blank_line l) (split_on NL (p @ [NL] @ r))
           = filter (\<lambda>l. \<not> blank_line l) (split_on NL r)"
proof -
  obtain init la where lp: "split_on NL p = init @ [la]"
    by (cases "split_on NL p" rule: rev_cases) simp_all
  from lines_blank [OF assms] lp have b: "\<forall>l \<in> set init. blank_line l" "blank_line la"
    by simp_all
  have "split_on NL (p @ ([NL] @ r)) = init @ [la] @ split_on NL r"
    by (simp only: split_on_append [of NL p] lp) simp
  with b show ?thesis by (simp add: filter_empty_conv)
qed

lemma lines_collapse_newlines:
  "split_on NL s = a # rest \<Longrightarrow>
     \<exists>rest'. split_on NL (collapse_newlines s) = a # rest'
        \<and> filter (\<lambda>l. \<not> blank_line l) rest' = filter (\<lambda>l. \<not> blank_line l) rest"
proof (induction s arbitrary: a rest rule: collapse_newlines.induct)
  case 1
  then show ?case by simp
next
  case (2 c cs)
  show ?case
  proof (cases "c = NL \<and> NL \<in> set (takeWhile py_isspace cs)")
    case True
    let ?ws = "takeWhile py_isspace cs"
    let ?r = "after_last_nl ?ws @ dropWhile py_isspace cs"
    from True "2.prems" have a: "a = []" "rest = split_on NL cs" by simp_all
    have bws: "blank_line ?ws" by (auto simp: blank_line_def list_all_iff dest: set_takeWhileD)
    from ws_run_last_nl [OF _ bws] True obtain p where
      p: "blank_line p" "?ws = p @ [NL] @ after_last_nl ?ws" by blast
    have "cs = ?ws @ dropWhile py_isspace cs" by simp
    with p(2) have cs: "cs = p @ [NL] @ ?r" by (metis append.assoc)
    obtain ar restr where lr: "split_on NL ?r = ar # restr"
      by (cases "split_on NL ?r") simp_all
    from "2.IH"(1) [OF True lr] obtain restr' where
      ih: "split_on NL (collapse_newlines ?r) = ar # restr'"
        "filter (\<lambda>l. \<not> blank_line l) restr' = filter (\<lambda>l. \<not> blank_line l) restr"
      by blast
    then have "filter (\<lambda>l. \<not> blank_line l) (split_on NL (collapse_newlines ?r))
        = filter (\<lambda>l. \<not> blank_line l) (split_on NL ?r)"
      using lr by simp
    also have "\<dots> = filter (\<lambda>l. \<not> blank_line l) (split_on NL (p @ [NL] @ ?r))"
      using lines_blank_prefix [OF p(1), of ?r] by simp
    also have "\<dots> = filter (\<lambda>l. \<not> blank_line l) rest"
      using cs a by simp
    finally have "filter (\<lambda>l. \<not> blank_line l) (split_on NL (collapse_newlines ?r))
        = filter (\<lambda>l. \<not> blank_line l) rest" .
    moreover have "split_on NL (collapse_newlines (c # cs))
        = [] # split_on NL (collapse_newlines ?r)"
      using True by simp
    ultimately show ?thesis using a by simp
  next
    case False
    then have cn: "collapse_newlines (c # cs) = c # collapse_newlines cs"
      by (simp only: collapse_newlines.simps if_False)
    obtain a' rest' where l: "split_on NL cs = a' # rest'"
      by (cases "split_on NL cs") simp_all
    from "2.IH"(2) [OF False l] obtain r' where
      ih: "split_on NL (collapse_newlines cs) = a' # r'"
        "filter (\<lambda>l. \<not> blank_line l) r' = filter (\<lambda>l. \<not> blank_line l) rest'"
      by blast
    show ?thesis
    proof (cases "c = NL")
      case True
      with "2.prems" l have "a = []" "rest = a' # rest'" by simp_all
      with True cn ih show ?thesis by simp
    next
      case nn: False
      with "2.prems" l have "a = c # a'" "rest = rest'" by (simp_all add: split_on_other)
      with nn cn ih show ?thesis by (simp add: split_on_other)
    qed
  qed
qed

lemma line_tokens_collapse_newlines: "line_tokens (collapse_newlines s) = line_tokens s"
proof -
  obtain a rest where l: "split_on NL s = a # rest"
    by (cases "split_on NL s") simp_all
  from lines_collapse_newlines [OF l] obtain rest' where
    "split_on NL (collapse_newlines s) = a # rest'"
    "filter (\<lambda>l. \<not> blank_line l) rest' = filter (\<lambda>l. \<not> blank_line l) rest"
    by blast
  with l show ?thesis by (simp add: line_tokens_def nonblank_lines_def)
qed


lemma clean_sql_pipeline:
  "clean_sql s = strip (collapse_newlines (collapse_hspace
                   (strip (rstrip_chars '';'' (remove_fences s)))))"
proof (cases "s = []")
  case True
  then show ?thesis
    by (simp add: clean_sql_def rstrip_chars_def strip_def rstrip_def lstrip_def)
next
  case False
  then show ?thesis by (simp add: clean_sql_def Let_def)
qed

lemma line_tokens_clean_sql:
  "line_tokens (clean_sql sql) = line_tokens (rstrip_chars '';'' (remove_fences sql))"
  by (simp only: clean_sql_pipeline line_tokens_strip line_tokens_collapse_newlines
      line_tokens_collapse_hspace)

text \<open>A statement on which nothing is left to clean.\<close>

definition clean_statement :: "string \<Rightarrow> bool" where
  "clean_statement s =
     (\<not> contains fence s
      \<and> (s = [] \<or> last s \<noteq> CHR '';'')
      \<and> CHR 0x09 \<notin> set s
      \<and> \<not> contains ''  '' s
      \<and> \<not> has_blank_line s
      \<and> (s = [] \<or> (\<not> py_isspace (hd s) \<and> \<not> py_isspace (last s))))"

lemma remove_fences_id: "\<not> contains fence s \<Longrightarrow> remove_fences s = s"
  by (induction s) auto

lemma rstrip_chars_id: "s = [] \<or> last s \<noteq> CHR '';'' \<Longrightarrow> rstrip_chars '';'' s = s"
  by (cases s rule: rev_cases) (auto simp: rstrip_chars_def)

lemma strip_id:
  assumes "s = [] \<or> (\<not> py_isspace (hd s) \<and> \<not> py_isspace (last s))"
  shows "strip s = s"
proof (cases "s = []")
  case True
  then show ?thesis by (simp add: strip_def rstrip_def lstrip_def)
next
  case False
  with assms strip_sandwich [of "[]" "[]" s] show ?thesis by simp
qed

lemma collapse_hspace_id:
  "CHR 0x09 \<notin> set s \<Longrightarrow> \<not> contains ''  '' s \<Longrightarrow> collapse_hspace s = s"
proof (induction s rule: collapse_hspace.induct)
  case 1
  then show ?case by simp
next
  case (2 c cs)
  from "2.prems" have tab: "CHR 0x09 \<notin> set cs" and c: "c \<noteq> CHR 0x09" by auto
  from "2.prems"(2) have nd: "\<not> contains ''  '' cs" and ns: "\<not> starts_with ''  '' (c # cs)"
    by auto
  show ?case
  proof (cases "is_hspace c")
    case True
    with c have sp: "c = CHR '' ''" by (simp add: is_hspace_def)
    have d: "dropWhile is_hspace cs = cs"
    proof (cases cs)
      case Nil
      then show ?thesis by simp
    next
      case (Cons d cs')
      with ns sp have "d \<noteq> CHR '' ''" by auto
      moreover from tab Cons have "d \<noteq> CHR 0x09" by auto
      ultimately show ?thesis using Cons by (simp add: is_hspace_def)
    qed
    from "2.IH"(1) [OF True] d tab nd have "collapse_hspace cs = cs" by simp
    with True sp d show ?thesis by simp
  next
    case False
    with "2.IH"(2) tab nd show ?thesis by simp
  qed
qed

lemma collapse_newlines_id: "\<not> has_blank_line s \<Longrightarrow> collapse_newlines s = s"
  by (induction s) auto

lemma clean_statement_fixed:
  assumes "clean_statement s"
  shows "clean_sql s = s"
proof -
  from assms have "remove_fences s = s" by (simp add: clean_statement_def remove_fences_id)
  moreover from assms have "rstrip_chars '';'' s = s"
    by (intro rstrip_chars_id) (simp add: clean_statement_def)
  moreover from assms have "strip s = s"
    by (intro strip_id) (simp add: clean_statement_def)
  moreover from assms have "collapse_hspace s = s"
    by (intro collapse_hspace_id) (simp_all add: clean_statement_def)
  moreover from assms have "collapse_newlines s = s"
    by (intro collapse_newlines_id) (simp add: clean_statement_def)
  ultimately show ?thesis by (simp only: clean_sql_pipeline)
qed

lemma remove_fences_prefix:
  "\<not> contains fence u \<Longrightarrow> u = [] \<or> last u \<noteq> backtick \<Longrightarrow>
     remove_fences (u @ x) = u @ remove_fences x"
proof (induction u)
  case Nil
  then show ?case by simp
next
  case (Cons c u)
  have nf: "\<not> starts_with fence ((c # u) @ x)"
  proof
    assume a: "starts_with fence ((c # u) @ x)"
    show False
    proof (cases u)
      case Nil
      with a Cons.prems(2) show False by (simp add: fence_backticks)
    next
      case u1: (Cons d u')
      show False
      proof (cases u')
        case Nil
        with a u1 Cons.prems(2) show False by (simp add: fence_backticks)
      next
        case (Cons e u'')
        with a u1 have "starts_with fence (c # u)" by (simp add: fence_backticks)
        with Cons.prems(1) show False by simp
      qed
    qed
  qed
  from Cons.prems have "\<not> contains fence u" and "u = [] \<or> last u \<noteq> backtick"
    by (auto split: if_splits)
  with Cons.IH have "remove_fences (u @ x) = u @ remove_fences x" by simp
  with nf show ?case by simp
qed

lemma remove_fences_tagged:
  assumes "py_lower tag = ''sql''"
  shows "remove_fences (fence @ tag @ v) = remove_fences v"
proof -
  from assms obtain x y z where t: "tag = [x, y, z]"
    by (auto simp: py_lower_def map_eq_Cons_conv)
  have "ci_starts_with ''sql'' ([x, y, z] @ v)"
    using ci_sql_prefix(1) [OF assms, of v] t by simp
  then have "remove_fences (backtick # backtick # backtick # x # y # z # v) = remove_fences v"
    by (simp add: fence_backticks)
  then show ?thesis by (simp add: fence_backticks t)
qed

lemma remove_fences_untagged:
  assumes "\<not> ci_starts_with ''sql'' v"
  shows "remove_fences (fence @ v) = remove_fences v"
proof -
  have "remove_fences (backtick # backtick # backtick # v) = remove_fences v"
    using assms by (simp add: fence_backticks)
  then show ?thesis by (simp add: fence_backticks)
qed

lemma clean_sql_drop_fence:
  assumes "\<not> contains fence u" and "u = [] \<or> last u \<noteq> backtick"
    and "py_lower tag = ''sql'' \<or> (tag = [] \<and> \<not> ci_starts_with ''sql'' v)"
  shows "clean_sql (u @ fence @ tag @ v) = clean_sql (u @ v)"
proof -
  have "remove_fences (fence @ tag @ v) = remove_fences v"
    using assms(3) remove_fences_tagged [of tag v] remove_fences_untagged [of v] by auto
  then have "remove_fences (u @ fence @ tag @ v) = remove_fences (u @ v)"
    using remove_fences_prefix [OF assms(1,2)] by simp
  then show ?thesis by (simp only: clean_sql_pipeline)
qed




end
